theory Spec2Isabelle
  imports Main "HOL-Library.Word"
begin

unbundle bit_operations_syntax

chapter \<open>The embedding\<close>

section \<open>JavaScript strings and values\<close>

text \<open>
  A JavaScript string is a sequence of 16-bit UTF-16 code units; \<open>length\<close> counts code
  units, as \<open>String.prototype.length\<close> does. A byte of a \<open>Uint8Array\<close> is an 8-bit word.
  \<open>lit\<close> writes an ASCII literal of the source as a JavaScript string.
\<close>

type_synonym byte = "8 word"
type_synonym code_unit = "16 word"
type_synonym jsstring = "code_unit list"

definition ch :: "char \<Rightarrow> code_unit" where
  "ch c = of_nat (of_char c)"

definition lit :: "string \<Rightarrow> jsstring" where
  "lit s = map ch s"

text \<open>
  The values that \<open>JSON.parse\<close> returns and that the identifier search walks: finite,
  acyclic nestings of arrays, plain objects and primitives. An object is the list of its
  own enumerable properties in enumeration order (the order of \<open>Object.values\<close>). A number
  is kept as the text of its numeral; the Number value that the numeral denotes, a binary
  floating-point number, is \<open>numeral_value\<close> below.
\<close>

datatype jsvalue =
    Undefined
  | Null
  | Boolean bool
  | Number jsstring
  | String jsstring
  | Array "jsvalue list"
  | Object "(jsstring \<times> jsvalue) list"

text \<open>Property read \<open>record.key\<close>: \<open>undefined\<close> when the value has no such own property.\<close>

fun get_prop :: "jsvalue \<Rightarrow> jsstring \<Rightarrow> jsvalue" where
  "get_prop (Object kvs) k = (case map_of kvs k of None \<Rightarrow> Undefined | Some v \<Rightarrow> v)"
| "get_prop _ k = Undefined"

text \<open>An optional string in a boolean position: \<open>undefined\<close> and \<open>""\<close> are falsy.\<close>

fun str_truthy :: "jsstring option \<Rightarrow> bool" where
  "str_truthy None = False"
| "str_truthy (Some s) = (s \<noteq> [])"

section \<open>ProviderRouter: \<open>getActiveProvider\<close>\<close>

datatype AIProviderType = openai | gemini | claude

text \<open>The four variables of \<open>process.env\<close> that the router reads; \<open>None\<close> is an unset variable.\<close>

record process_env =
  AI_PROVIDER :: "jsstring option"
  OPENAI_API_KEY :: "jsstring option"
  GEMINI_API_KEY :: "jsstring option"
  ANTHROPIC_API_KEY :: "jsstring option"

text \<open>
  \<open>String.prototype.toLowerCase\<close> on the letters A to Z. The case mappings of characters
  outside ASCII are not modelled: none of them yields a letter of the three provider names,
  so they cannot change a comparison with \<open>"openai"\<close>, \<open>"gemini"\<close> or \<open>"claude"\<close>.
\<close>

definition toLowerCase :: "jsstring \<Rightarrow> jsstring" where
  "toLowerCase s = map (\<lambda>c. if 0x41 \<le> c \<and> c \<le> 0x5A then c + 0x20 else c) s"

definition getActiveProvider :: "jsstring option \<Rightarrow> process_env \<Rightarrow> AIProviderType" where
  "getActiveProvider requested env =
    (if requested = Some (lit ''openai'') then openai
     else if requested = Some (lit ''gemini'') then gemini
     else if requested = Some (lit ''claude'') then claude
     else
       let envProvider = map_option toLowerCase (AI_PROVIDER env) in
       if envProvider = Some (lit ''gemini'') then gemini
       else if envProvider = Some (lit ''claude'') then claude
       else if envProvider = Some (lit ''openai'') then openai
       else if str_truthy (OPENAI_API_KEY env) then openai
       else if str_truthy (GEMINI_API_KEY env) then gemini
       else if str_truthy (ANTHROPIC_API_KEY env) then claude
       else openai)"

definition getAvailableProviders :: "process_env \<Rightarrow> AIProviderType list" where
  "getAvailableProviders env =
    (if str_truthy (OPENAI_API_KEY env) then [openai] else []) @
    (if str_truthy (GEMINI_API_KEY env) then [gemini] else []) @
    (if str_truthy (ANTHROPIC_API_KEY env) then [claude] else [])"

text \<open>
  The precedence in the words of the specification, for comparison: a value is a valid
  member when it is one of the three names as written; a credential is present when its
  variable is set to a non-empty value.
\<close>

definition valid_member :: "jsstring option \<Rightarrow> AIProviderType option" where
  "valid_member v =
    (if v = Some (lit ''openai'') then Some openai
     else if v = Some (lit ''gemini'') then Some gemini
     else if v = Some (lit ''claude'') then Some claude
     else None)"

definition first_configured :: "process_env \<Rightarrow> AIProviderType option" where
  "first_configured env =
    (case getAvailableProviders env of [] \<Rightarrow> None | p # _ \<Rightarrow> Some p)"

definition resolve_spec :: "jsstring option \<Rightarrow> process_env \<Rightarrow> AIProviderType" where
  "resolve_spec requested env =
    (case valid_member requested of
       Some p \<Rightarrow> p
     | None \<Rightarrow>
        (case valid_member (AI_PROVIDER env) of
           Some p \<Rightarrow> p
         | None \<Rightarrow>
            (case first_configured env of
               Some p \<Rightarrow> p
             | None \<Rightarrow> openai)))"

section \<open>MessageNormalizer: \<open>toGeminiMessages\<close>\<close>

record ChatMessage =
  role :: jsstring
  content :: jsstring

record GeminiContent =
  g_role :: jsstring
  parts :: "jsstring list"

record GeminiMessages =
  systemInstruction :: jsstring
  history :: "GeminiContent list"
  lastMessage :: jsstring

text \<open>One pass of the loop body, at index \<open>i\<close> of \<open>messages\<close> (always in range).\<close>

definition gemini_step :: "ChatMessage list \<Rightarrow> nat \<Rightarrow> GeminiMessages \<Rightarrow> GeminiMessages" where
  "gemini_step messages i acc =
    (let msg = messages ! i in
     if role msg = lit ''system'' then
       acc\<lparr>systemInstruction :=
         systemInstruction acc @ (if systemInstruction acc \<noteq> [] then [0x0A] else []) @ content msg\<rparr>
     else if i = length messages - 1 \<and> role msg = lit ''user'' then
       acc\<lparr>lastMessage := content msg\<rparr>
     else
       acc\<lparr>history := history acc @
         [\<lparr>g_role = (if role msg = lit ''assistant'' then lit ''model'' else lit ''user''),
           parts = [content msg]\<rparr>]\<rparr>)"

definition toGeminiMessages :: "ChatMessage list \<Rightarrow> GeminiMessages" where
  "toGeminiMessages messages =
    fold (gemini_step messages) [0..<length messages]
      \<lparr>systemInstruction = [], history = [], lastMessage = []\<rparr>"

text \<open>The words of the specification: newline-joined text, and the relayed history entry.\<close>

fun join_newline :: "jsstring list \<Rightarrow> jsstring" where
  "join_newline [] = []"
| "join_newline [s] = s"
| "join_newline (s # t # ss) = s @ [0x0A] @ join_newline (t # ss)"

definition relay :: "ChatMessage \<Rightarrow> GeminiContent" where
  "relay m =
    \<lparr>g_role = (if role m = lit ''assistant'' then lit ''model'' else lit ''user''),
     parts = [content m]\<rparr>"

definition system_texts :: "ChatMessage list \<Rightarrow> jsstring list" where
  "system_texts messages = map content (filter (\<lambda>m. role m = lit ''system'') messages)"

definition final_turn_extracted :: "ChatMessage list \<Rightarrow> bool" where
  "final_turn_extracted messages = (messages \<noteq> [] \<and> role (last messages) = lit ''user'')"

text \<open>
  For comparison: how many leading messages are candidates for the history after the loop
  has handled the first \<open>n\<close> of them, and the state of the loop at that point.
\<close>

definition kept :: "ChatMessage list \<Rightarrow> nat \<Rightarrow> nat" where
  "kept messages n = (if final_turn_extracted messages then min n (length messages - 1) else n)"

definition loop_result :: "ChatMessage list \<Rightarrow> nat \<Rightarrow> GeminiMessages" where
  "loop_result messages n =
   \<lparr>systemInstruction = join_newline (dropWhile (\<lambda>s. s = []) (system_texts (take n messages))),
    history = map relay (filter (\<lambda>m. role m \<noteq> lit ''system'') (take (kept messages n) messages)),
    lastMessage = (if n = length messages \<and> final_turn_extracted messages
       then content (last messages) else [])\<rparr>"

section \<open>ConversationIdRecovery: \<open>extractChatIdFromContent\<close>\<close>

definition isValidChatId :: "jsstring \<Rightarrow> bool" where
  "isValidChatId ident =
    (if ident = lit ''hello-world'' \<or> length ident \<le> 10 then False
     else (ch CHR ''-'' \<in> set ident \<and> length ident > 20) \<or> length ident > 15)"

text \<open>
  The test \<open>record.key && typeof record.key === "string" && isValidChatId(record.key)\<close>.
\<close>

definition valid_id_field :: "jsvalue \<Rightarrow> jsstring \<Rightarrow> jsstring option" where
  "valid_id_field obj k =
    (case get_prop obj k of
       String s \<Rightarrow> (if s \<noteq> [] \<and> isValidChatId s then Some s else None)
     | _ \<Rightarrow> None)"

text \<open>
  \<open>search\<close> threads the variable \<open>foundChatId\<close> of the enclosing function through every
  call; \<open>forEach_search\<close> is \<open>xs.forEach(search)\<close>. The first equation group is the guard
  \<open>foundChatId || !obj || typeof obj !== "object"\<close>: of the values, only arrays and objects
  are truthy with \<open>typeof\<close> \<open>"object"\<close> (\<open>null\<close> has that type and is falsy).
\<close>

fun search :: "jsstring option \<Rightarrow> jsvalue \<Rightarrow> jsstring option"
  and forEach_search :: "jsstring option \<Rightarrow> jsvalue list \<Rightarrow> jsstring option"
  and forEach_values :: "jsstring option \<Rightarrow> (jsstring \<times> jsvalue) list \<Rightarrow> jsstring option" where
  "search foundChatId (Array xs) =
    (if str_truthy foundChatId then foundChatId
     else forEach_search foundChatId xs)"
| "search foundChatId (Object kvs) =
    (if str_truthy foundChatId then foundChatId
     else case valid_id_field (Object kvs) (lit ''chatId'') of
       Some s \<Rightarrow> Some s
     | None \<Rightarrow>
        (case valid_id_field (Object kvs) (lit ''id'') of
           Some s \<Rightarrow> Some s
         | None \<Rightarrow> forEach_values foundChatId kvs))"
| "search foundChatId Undefined = foundChatId"
| "search foundChatId Null = foundChatId"
| "search foundChatId (Boolean b) = foundChatId"
| "search foundChatId (Number n) = foundChatId"
| "search foundChatId (String s) = foundChatId"
| "forEach_search foundChatId [] = foundChatId"
| "forEach_search foundChatId (x # xs) = forEach_search (search foundChatId x) xs"
| "forEach_values foundChatId [] = foundChatId"
| "forEach_values foundChatId (kv # kvs) = forEach_values (search foundChatId (snd kv)) kvs"

definition extractChatIdFromContent :: "jsvalue list \<Rightarrow> jsstring option" where
  "extractChatIdFromContent contents = forEach_search None contents"

text \<open>
  For comparison: the accepted candidates of a value in depth-first pre-order, a node before
  its children, the field \<open>chatId\<close> of a node before its field \<open>id\<close>, array elements and
  field values in enumeration order.
\<close>

definition own_hits :: "jsvalue \<Rightarrow> jsstring list" where
  "own_hits v =
    (case valid_id_field v (lit ''chatId'') of None \<Rightarrow> [] | Some s \<Rightarrow> [s]) @
    (case valid_id_field v (lit ''id'') of None \<Rightarrow> [] | Some s \<Rightarrow> [s])"

fun accepted_preorder :: "jsvalue \<Rightarrow> jsstring list"
  and accepted_list :: "jsvalue list \<Rightarrow> jsstring list"
  and accepted_values :: "(jsstring \<times> jsvalue) list \<Rightarrow> jsstring list" where
  "accepted_preorder (Array xs) = accepted_list xs"
| "accepted_preorder (Object kvs) = own_hits (Object kvs) @ accepted_values kvs"
| "accepted_preorder Undefined = []"
| "accepted_preorder Null = []"
| "accepted_preorder (Boolean b) = []"
| "accepted_preorder (Number n) = []"
| "accepted_preorder (String s) = []"
| "accepted_list [] = []"
| "accepted_list (x # xs) = accepted_preorder x @ accepted_list xs"
| "accepted_values [] = []"
| "accepted_values (kv # kvs) = accepted_preorder (snd kv) @ accepted_values kvs"

fun first_of :: "'a list \<Rightarrow> 'a option" where
  "first_of [] = None"
| "first_of (x # xs) = Some x"

text \<open>A structure none of whose objects, at any depth, has a field \<open>chatId\<close> or \<open>id\<close>.\<close>

fun no_id_fields :: "jsvalue \<Rightarrow> bool"
  and no_id_fields_list :: "jsvalue list \<Rightarrow> bool"
  and no_id_fields_values :: "(jsstring \<times> jsvalue) list \<Rightarrow> bool" where
  "no_id_fields (Array xs) = no_id_fields_list xs"
| "no_id_fields (Object kvs) =
    (lit ''chatId'' \<notin> fst ` set kvs \<and> lit ''id'' \<notin> fst ` set kvs \<and> no_id_fields_values kvs)"
| "no_id_fields Undefined = True"
| "no_id_fields Null = True"
| "no_id_fields (Boolean b) = True"
| "no_id_fields (Number n) = True"
| "no_id_fields (String s) = True"
| "no_id_fields_list [] = True"
| "no_id_fields_list (x # xs) = (no_id_fields x \<and> no_id_fields_list xs)"
| "no_id_fields_values [] = True"
| "no_id_fields_values (kv # kvs) = (no_id_fields (snd kv) \<and> no_id_fields_values kvs)"

text \<open>
  The same search with the depth of the call stack counted: \<open>None\<close> when a call would
  need more than \<open>n\<close> nested activations of \<open>search\<close>.
\<close>

fun search_fuel :: "nat \<Rightarrow> jsstring option \<Rightarrow> jsvalue \<Rightarrow> jsstring option option"
  and forEach_search_fuel :: "nat \<Rightarrow> jsstring option \<Rightarrow> jsvalue list \<Rightarrow> jsstring option option"
  and forEach_values_fuel ::
    "nat \<Rightarrow> jsstring option \<Rightarrow> (jsstring \<times> jsvalue) list \<Rightarrow> jsstring option option" where
  "search_fuel 0 foundChatId obj = None"
| "search_fuel (Suc n) foundChatId (Array xs) =
    (if str_truthy foundChatId then Some foundChatId
     else forEach_search_fuel n foundChatId xs)"
| "search_fuel (Suc n) foundChatId (Object kvs) =
    (if str_truthy foundChatId then Some foundChatId
     else case valid_id_field (Object kvs) (lit ''chatId'') of
       Some s \<Rightarrow> Some (Some s)
     | None \<Rightarrow>
        (case valid_id_field (Object kvs) (lit ''id'') of
           Some s \<Rightarrow> Some (Some s)
         | None \<Rightarrow> forEach_values_fuel n foundChatId kvs))"
| "search_fuel (Suc n) foundChatId Undefined = Some foundChatId"
| "search_fuel (Suc n) foundChatId Null = Some foundChatId"
| "search_fuel (Suc n) foundChatId (Boolean b) = Some foundChatId"
| "search_fuel (Suc n) foundChatId (Number m) = Some foundChatId"
| "search_fuel (Suc n) foundChatId (String s) = Some foundChatId"
| "forEach_search_fuel n foundChatId [] = Some foundChatId"
| "forEach_search_fuel n foundChatId (x # xs) =
    (case search_fuel n foundChatId x of
       None \<Rightarrow> None
     | Some found' \<Rightarrow> forEach_search_fuel n found' xs)"
| "forEach_values_fuel n foundChatId [] = Some foundChatId"
| "forEach_values_fuel n foundChatId (kv # kvs) =
    (case search_fuel n foundChatId (snd kv) of
       None \<Rightarrow> None
     | Some found' \<Rightarrow> forEach_values_fuel n found' kvs)"

definition extractChatIdFromContent_fuel :: "nat \<Rightarrow> jsvalue list \<Rightarrow> jsstring option option" where
  "extractChatIdFromContent_fuel n contents = forEach_search_fuel n None contents"

text \<open>The nesting depth of a value: 1 for a primitive, one more than its deepest child otherwise.\<close>

fun nesting :: "jsvalue \<Rightarrow> nat"
  and nesting_list :: "jsvalue list \<Rightarrow> nat"
  and nesting_values :: "(jsstring \<times> jsvalue) list \<Rightarrow> nat" where
  "nesting (Array xs) = Suc (nesting_list xs)"
| "nesting (Object kvs) = Suc (nesting_values kvs)"
| "nesting Undefined = 1"
| "nesting Null = 1"
| "nesting (Boolean b) = 1"
| "nesting (Number n) = 1"
| "nesting (String s) = 1"
| "nesting_list [] = 0"
| "nesting_list (x # xs) = max (nesting x) (nesting_list xs)"
| "nesting_values [] = 0"
| "nesting_values (kv # kvs) = max (nesting (snd kv)) (nesting_values kvs)"

section \<open>\<open>TextDecoder\<close> and \<open>TextEncoder\<close>: UTF-8\<close>

text \<open>
  The UTF-8 decoder of the Encoding standard, which \<open>TextDecoder.decode\<close> runs with
  \<open>stream: true\<close>: its state survives from one call to the next, and the bytes of an
  incomplete sequence at the end of a chunk stay pending. Code points are natural numbers;
  \<open>b mod 32\<close> is \<open>b & 0x1F\<close> and \<open>cp * 64 + b mod 64\<close> is \<open>(cp << 6) | (b & 0x3F)\<close>.
\<close>

record utf8_decoder =
  code_point :: nat
  bytes_seen :: nat
  bytes_needed :: nat
  lower_boundary :: nat
  upper_boundary :: nat
  bom_seen :: bool

definition new_decoder :: utf8_decoder where
  "new_decoder =
    \<lparr>code_point = 0, bytes_seen = 0, bytes_needed = 0,
     lower_boundary = 0x80, upper_boundary = 0xBF, bom_seen = False\<rparr>"

definition reset_sequence :: "utf8_decoder \<Rightarrow> utf8_decoder" where
  "reset_sequence d =
    d\<lparr>code_point := 0, bytes_seen := 0, bytes_needed := 0,
      lower_boundary := 0x80, upper_boundary := 0xBF\<rparr>"

text \<open>A byte read when no sequence is pending; the result is the new state and the code points emitted.\<close>

definition lead_byte :: "utf8_decoder \<Rightarrow> nat \<Rightarrow> utf8_decoder \<times> nat list" where
  "lead_byte d b =
    (if b \<le> 0x7F then (d, [b])
     else if 0xC2 \<le> b \<and> b \<le> 0xDF then
       (d\<lparr>bytes_needed := 1, code_point := b mod 32\<rparr>, [])
     else if 0xE0 \<le> b \<and> b \<le> 0xEF then
       (d\<lparr>lower_boundary := (if b = 0xE0 then 0xA0 else lower_boundary d),
          upper_boundary := (if b = 0xED then 0x9F else upper_boundary d),
          bytes_needed := 2, code_point := b mod 16\<rparr>, [])
     else if 0xF0 \<le> b \<and> b \<le> 0xF4 then
       (d\<lparr>lower_boundary := (if b = 0xF0 then 0x90 else lower_boundary d),
          upper_boundary := (if b = 0xF4 then 0x8F else upper_boundary d),
          bytes_needed := 3, code_point := b mod 8\<rparr>, [])
     else (d, [0xFFFD]))"

text \<open>
  The handler. A byte outside the expected range ends the pending sequence with U+FFFD and
  is then read again as the first byte of a new sequence.
\<close>

definition utf8_handler :: "utf8_decoder \<Rightarrow> byte \<Rightarrow> utf8_decoder \<times> nat list" where
  "utf8_handler d byte =
    (let b = unat byte in
     if bytes_needed d = 0 then lead_byte d b
     else if b < lower_boundary d \<or> upper_boundary d < b then
       (let (d', out) = lead_byte (reset_sequence d) b in (d', 0xFFFD # out))
     else
       (let d1 = d\<lparr>lower_boundary := 0x80, upper_boundary := 0xBF,
                    code_point := code_point d * 64 + b mod 64,
                    bytes_seen := bytes_seen d + 1\<rparr>
        in if bytes_seen d1 \<noteq> bytes_needed d1 then (d1, [])
           else (reset_sequence d1, [code_point d1])))"

text \<open>A code point as UTF-16 code units.\<close>

definition utf16 :: "nat \<Rightarrow> jsstring" where
  "utf16 cp =
    (if cp < 0x10000 then [of_nat cp]
     else [of_nat (0xD800 + (cp - 0x10000) div 1024), of_nat (0xDC00 + (cp - 0x10000) mod 1024)])"

text \<open>
  The decoded code points become text; the first code point of the whole stream is dropped
  when it is the byte order mark U+FEFF (\<open>ignoreBOM\<close> is false by default).
\<close>

fun serialize :: "bool \<Rightarrow> nat list \<Rightarrow> bool \<times> jsstring" where
  "serialize seen [] = (seen, [])"
| "serialize seen (cp # cps) =
    (let (seen', out) = serialize True cps
     in if \<not> seen \<and> cp = 0xFEFF then (seen', out) else (seen', utf16 cp @ out))"

text \<open>\<open>decoder.decode(chunk, { stream: true })\<close>: the new state and the text returned.\<close>

fun decode_stream :: "utf8_decoder \<Rightarrow> byte list \<Rightarrow> utf8_decoder \<times> jsstring" where
  "decode_stream d [] = (d, [])"
| "decode_stream d (b # bs) =
    (let (d1, cps) = utf8_handler d b;
         (seen, s) = serialize (bom_seen d1) cps;
         (d2, t) = decode_stream (d1\<lparr>bom_seen := seen\<rparr>) bs
     in (d2, s @ t))"

text \<open>
  \<open>TextEncoder.encode\<close>: a surrogate pair is one code point of four bytes, a surrogate
  without its partner is encoded as U+FFFD.
\<close>

definition utf8_bytes :: "nat \<Rightarrow> byte list" where
  "utf8_bytes cp =
    (if cp < 0x80 then [of_nat cp]
     else if cp < 0x800 then [of_nat (0xC0 + cp div 64), of_nat (0x80 + cp mod 64)]
     else if cp < 0x10000 then
       [of_nat (0xE0 + cp div 4096), of_nat (0x80 + cp div 64 mod 64), of_nat (0x80 + cp mod 64)]
     else
       [of_nat (0xF0 + cp div 262144), of_nat (0x80 + cp div 4096 mod 64),
        of_nat (0x80 + cp div 64 mod 64), of_nat (0x80 + cp mod 64)])"

definition is_high_surrogate :: "code_unit \<Rightarrow> bool" where
  "is_high_surrogate c = (0xD800 \<le> c \<and> c \<le> 0xDBFF)"

definition is_low_surrogate :: "code_unit \<Rightarrow> bool" where
  "is_low_surrogate c = (0xDC00 \<le> c \<and> c \<le> 0xDFFF)"

definition pair_code_point :: "code_unit \<Rightarrow> code_unit \<Rightarrow> nat" where
  "pair_code_point hi lo = 0x10000 + (unat hi - 0xD800) * 1024 + (unat lo - 0xDC00)"

fun TextEncoder_encode :: "jsstring \<Rightarrow> byte list" where
  "TextEncoder_encode [] = []"
| "TextEncoder_encode [c] =
    (if is_high_surrogate c \<or> is_low_surrogate c then utf8_bytes 0xFFFD else utf8_bytes (unat c))"
| "TextEncoder_encode (c # c' # cs) =
    (if is_high_surrogate c \<and> is_low_surrogate c' then
       utf8_bytes (pair_code_point c c') @ TextEncoder_encode cs
     else if is_high_surrogate c \<or> is_low_surrogate c then
       utf8_bytes 0xFFFD @ TextEncoder_encode (c' # cs)
     else utf8_bytes (unat c) @ TextEncoder_encode (c' # cs))"

text \<open>
  Vocabulary for the properties of the two: a string is well formed when every surrogate in
  it belongs to a pair, and a decoder has nothing pending when it stands between two
  sequences.
\<close>

fun well_formed :: "jsstring \<Rightarrow> bool" where
  "well_formed [] = True"
| "well_formed [c] = (\<not> is_high_surrogate c \<and> \<not> is_low_surrogate c)"
| "well_formed (c # c' # cs) =
    (if is_high_surrogate c \<and> is_low_surrogate c' then well_formed cs
     else \<not> is_high_surrogate c \<and> \<not> is_low_surrogate c \<and> well_formed (c' # cs))"

definition no_surrogates :: "jsstring \<Rightarrow> bool" where
  "no_surrogates s = (\<forall>c \<in> set s. \<not> is_high_surrogate c \<and> \<not> is_low_surrogate c)"

definition pending_none :: "utf8_decoder \<Rightarrow> bool" where
  "pending_none d =
    (code_point d = 0 \<and> bytes_seen d = 0 \<and> bytes_needed d = 0 \<and>
     lower_boundary d = 0x80 \<and> upper_boundary d = 0xBF)"

section \<open>String operations of the decoder\<close>

definition startsWith :: "jsstring \<Rightarrow> jsstring \<Rightarrow> bool" where
  "startsWith s p = (take (length p) s = p)"

text \<open>\<open>s.split("\n")\<close>: the pieces between line feeds; an empty string gives one empty piece.\<close>

fun split_newline :: "jsstring \<Rightarrow> jsstring list" where
  "split_newline [] = [[]]"
| "split_newline (c # cs) =
    (if c = 0x0A then [] # split_newline cs
     else (case split_newline cs of
             [] \<Rightarrow> [[c]]
           | l # ls \<Rightarrow> (c # l) # ls))"

text \<open>
  \<open>String.prototype.trim\<close> removes white space and line terminators from both ends: TAB,
  LF, VT, FF, CR, SPACE, NBSP, U+1680, U+2000 to U+200A, U+2028, U+2029, U+202F, U+205F,
  U+3000 and U+FEFF.
\<close>

definition is_trim_space :: "code_unit \<Rightarrow> bool" where
  "is_trim_space c =
    ((0x09 \<le> c \<and> c \<le> 0x0D) \<or> c = 0x20 \<or> c = 0xA0 \<or> c = 0x1680 \<or>
     (0x2000 \<le> c \<and> c \<le> 0x200A) \<or> c = 0x2028 \<or> c = 0x2029 \<or> c = 0x202F \<or>
     c = 0x205F \<or> c = 0x3000 \<or> c = 0xFEFF)"

definition trim :: "jsstring \<Rightarrow> jsstring" where
  "trim s = rev (dropWhile is_trim_space (rev (dropWhile is_trim_space s)))"

section \<open>\<open>JSON.stringify\<close> and \<open>JSON.parse\<close>\<close>

definition hex_digit :: "nat \<Rightarrow> code_unit" where
  "hex_digit d = (if d < 10 then of_nat (0x30 + d) else of_nat (0x61 + (d - 10)))"

definition unicode_escape :: "code_unit \<Rightarrow> jsstring" where
  "unicode_escape c =
    (let n = unat c in
     [0x5C, 0x75, hex_digit (n div 4096), hex_digit (n div 256 mod 16),
      hex_digit (n div 16 mod 16), hex_digit (n mod 16)])"

text \<open>
  \<open>QuoteJSONString\<close>: the two-character escapes, \<open>\uXXXX\<close> for the other control
  characters and for a surrogate without its partner, everything else as it is.
\<close>

definition quote_unit :: "code_unit \<Rightarrow> jsstring" where
  "quote_unit c =
    (if c = 0x08 then [0x5C, 0x62]
     else if c = 0x09 then [0x5C, 0x74]
     else if c = 0x0A then [0x5C, 0x6E]
     else if c = 0x0C then [0x5C, 0x66]
     else if c = 0x0D then [0x5C, 0x72]
     else if c = 0x22 then [0x5C, 0x22]
     else if c = 0x5C then [0x5C, 0x5C]
     else if c < 0x20 \<or> is_high_surrogate c \<or> is_low_surrogate c then unicode_escape c
     else [c])"

fun quote_units :: "jsstring \<Rightarrow> jsstring" where
  "quote_units [] = []"
| "quote_units [c] = quote_unit c"
| "quote_units (c # c' # cs) =
    (if is_high_surrogate c \<and> is_low_surrogate c' then c # c' # quote_units cs
     else quote_unit c @ quote_units (c' # cs))"

definition QuoteJSONString :: "jsstring \<Rightarrow> jsstring" where
  "QuoteJSONString s = [0x22] @ quote_units s @ [0x22]"

text \<open>
  \<open>JSON.stringify\<close> of a plain object whose properties are all strings, as the three
  objects of the encoder are: the properties in order, no white space.
\<close>

fun stringify_members :: "(jsstring \<times> jsstring) list \<Rightarrow> jsstring" where
  "stringify_members [] = []"
| "stringify_members [(k, v)] = QuoteJSONString k @ [0x3A] @ QuoteJSONString v"
| "stringify_members ((k, v) # kv # kvs) =
    QuoteJSONString k @ [0x3A] @ QuoteJSONString v @ [0x2C] @ stringify_members (kv # kvs)"

definition JSON_stringify :: "(jsstring \<times> jsstring) list \<Rightarrow> jsstring" where
  "JSON_stringify kvs = [0x7B] @ stringify_members kvs @ [0x7D]"

text \<open>The value that such an object is.\<close>

definition string_object :: "(jsstring \<times> jsstring) list \<Rightarrow> jsvalue" where
  "string_object kvs = Object (map (\<lambda>kv. (fst kv, String (snd kv))) kvs)"

text \<open>\<open>JSON.parse\<close>. \<open>None\<close> is the \<open>SyntaxError\<close> it throws.\<close>

definition is_json_ws :: "code_unit \<Rightarrow> bool" where
  "is_json_ws c = (c = 0x20 \<or> c = 0x09 \<or> c = 0x0A \<or> c = 0x0D)"

definition skip_ws :: "jsstring \<Rightarrow> jsstring" where
  "skip_ws s = dropWhile is_json_ws s"

definition is_digit :: "code_unit \<Rightarrow> bool" where
  "is_digit c = (0x30 \<le> c \<and> c \<le> 0x39)"

definition hex_value :: "code_unit \<Rightarrow> nat option" where
  "hex_value c =
    (if 0x30 \<le> c \<and> c \<le> 0x39 then Some (unat c - 0x30)
     else if 0x61 \<le> c \<and> c \<le> 0x66 then Some (unat c - 0x61 + 10)
     else if 0x41 \<le> c \<and> c \<le> 0x46 then Some (unat c - 0x41 + 10)
     else None)"

definition hex4 :: "code_unit \<Rightarrow> code_unit \<Rightarrow> code_unit \<Rightarrow> code_unit \<Rightarrow> code_unit option" where
  "hex4 a b c d =
    (case (hex_value a, hex_value b, hex_value c, hex_value d) of
       (Some w, Some x, Some y, Some z) \<Rightarrow> Some (of_nat (((w * 16 + x) * 16 + y) * 16 + z))
     | _ \<Rightarrow> None)"

definition simple_escape :: "code_unit \<Rightarrow> code_unit option" where
  "simple_escape e =
    (if e = 0x22 then Some 0x22
     else if e = 0x5C then Some 0x5C
     else if e = 0x2F then Some 0x2F
     else if e = 0x62 then Some 0x08
     else if e = 0x66 then Some 0x0C
     else if e = 0x6E then Some 0x0A
     else if e = 0x72 then Some 0x0D
     else if e = 0x74 then Some 0x09
     else None)"

definition cons_result :: "code_unit \<Rightarrow> (jsstring \<times> jsstring) option \<Rightarrow> (jsstring \<times> jsstring) option" where
  "cons_result c r = (case r of None \<Rightarrow> None | Some (s, rest) \<Rightarrow> Some (c # s, rest))"

text \<open>The characters of a string after its opening quote: the text, and what follows the closing quote.\<close>

fun parse_chars :: "jsstring \<Rightarrow> (jsstring \<times> jsstring) option" where
  "parse_chars [] = None"
| "parse_chars (c # cs) =
    (if c = 0x22 then Some ([], cs)
     else if c = 0x5C then
       (case cs of
          [] \<Rightarrow> None
        | e # r \<Rightarrow>
            if e = 0x75 then
              (case r of
                 h1 # h2 # h3 # h4 # r' \<Rightarrow>
                   (case hex4 h1 h2 h3 h4 of
                      None \<Rightarrow> None
                    | Some u \<Rightarrow> cons_result u (parse_chars r'))
               | _ \<Rightarrow> None)
            else
              (case simple_escape e of
                 None \<Rightarrow> None
               | Some u \<Rightarrow> cons_result u (parse_chars r)))
     else if c < 0x20 then None
     else cons_result c (parse_chars cs))"

text \<open>A number: its numeral, by the grammar \<open>-? (0 | [1-9][0-9]*) (. [0-9]+)? ([eE] [+-]? [0-9]+)?\<close>.\<close>

definition parse_int_part :: "jsstring \<Rightarrow> (jsstring \<times> jsstring) option" where
  "parse_int_part s =
    (case s of
       [] \<Rightarrow> None
     | c # cs \<Rightarrow>
         if c = 0x30 then Some ([c], cs)
         else if is_digit c then Some (c # takeWhile is_digit cs, dropWhile is_digit cs)
         else None)"

definition parse_frac_part :: "jsstring \<Rightarrow> (jsstring \<times> jsstring) option" where
  "parse_frac_part s =
    (case s of
       [] \<Rightarrow> Some ([], s)
     | c # cs \<Rightarrow>
         if c = 0x2E then
           (if takeWhile is_digit cs = [] then None
            else Some (c # takeWhile is_digit cs, dropWhile is_digit cs))
         else Some ([], s))"

definition parse_sign :: "jsstring \<Rightarrow> jsstring \<times> jsstring" where
  "parse_sign s =
    (case s of
       [] \<Rightarrow> ([], s)
     | c # cs \<Rightarrow> if c = 0x2B \<or> c = 0x2D then ([c], cs) else ([], s))"

definition parse_exp_part :: "jsstring \<Rightarrow> (jsstring \<times> jsstring) option" where
  "parse_exp_part s =
    (case s of
       [] \<Rightarrow> Some ([], s)
     | c # cs \<Rightarrow>
         if c = 0x65 \<or> c = 0x45 then
           (let (sign, r) = parse_sign cs in
            if takeWhile is_digit r = [] then None
            else Some (c # sign @ takeWhile is_digit r, dropWhile is_digit r))
         else Some ([], s))"

definition parse_number :: "jsstring \<Rightarrow> (jsstring \<times> jsstring) option" where
  "parse_number s =
    (let (minus, r0) = (case s of [] \<Rightarrow> ([], s) | c # cs \<Rightarrow> if c = 0x2D then ([c], cs) else ([], s)) in
     case parse_int_part r0 of
       None \<Rightarrow> None
     | Some (i, r1) \<Rightarrow>
         (case parse_frac_part r1 of
            None \<Rightarrow> None
          | Some (f, r2) \<Rightarrow>
              (case parse_exp_part r2 of
                 None \<Rightarrow> None
               | Some (e, r3) \<Rightarrow> Some (minus @ i @ f @ e, r3))))"

text \<open>The integer that a sequence of decimal digits writes.\<close>

definition decimal :: "jsstring \<Rightarrow> int" where
  "decimal ds = foldl (\<lambda>n c. 10 * n + (uint c - 48)) 0 ds"

text \<open>
  The own properties of an object are enumerated with the array indices first, in ascending
  order, and the other names after them in the order of their creation. An array index is
  a name that is the decimal numeral, without a leading zero, of an integer below
  \<open>2^32 - 1\<close>.
\<close>

definition array_index :: "jsstring \<Rightarrow> int option" where
  "array_index k =
    (if k \<noteq> [] \<and> list_all is_digit k \<and> (k = [0x30] \<or> take 1 k \<noteq> [0x30]) \<and>
        decimal k < 4294967295
     then Some (decimal k) else None)"

fun insert_index ::
  "int \<Rightarrow> jsstring \<times> jsvalue \<Rightarrow> (jsstring \<times> jsvalue) list \<Rightarrow> (jsstring \<times> jsvalue) list" where
  "insert_index i kv [] = [kv]"
| "insert_index i kv (kv' # kvs) =
    (case array_index (fst kv') of
       Some j \<Rightarrow> if j < i then kv' # insert_index i kv kvs else kv # kv' # kvs
     | None \<Rightarrow> kv # kv' # kvs)"

text \<open>
  Storing a property: a repeated key keeps its place and takes the later value; a new key
  takes its place in the enumeration order.
\<close>

definition set_prop :: "(jsstring \<times> jsvalue) list \<Rightarrow> jsstring \<Rightarrow> jsvalue \<Rightarrow> (jsstring \<times> jsvalue) list" where
  "set_prop kvs k v =
    (if k \<in> fst ` set kvs then map (\<lambda>kv. if fst kv = k then (k, v) else kv) kvs
     else
       (case array_index k of
          None \<Rightarrow> kvs @ [(k, v)]
        | Some i \<Rightarrow> insert_index i (k, v) kvs))"

text \<open>
  A value, the elements of an array after the first \<open>[\<close>, and the members of an object.
  Each takes the text at the first character of what it reads and returns what is left
  behind it. The tests on \<open>length\<close> are true whenever they are reached, because a value
  has at least one character; they make the termination of the recursion evident.
\<close>

function parse_value :: "jsstring \<Rightarrow> (jsvalue \<times> jsstring) option"
  and parse_elements :: "jsvalue list \<Rightarrow> jsstring \<Rightarrow> (jsvalue list \<times> jsstring) option"
  and parse_members ::
    "(jsstring \<times> jsvalue) list \<Rightarrow> jsstring \<Rightarrow> ((jsstring \<times> jsvalue) list \<times> jsstring) option" where
  "parse_value inp =
    (case inp of
       [] \<Rightarrow> None
     | c # cs \<Rightarrow>
         if c = 0x7B then
           (case skip_ws cs of
              [] \<Rightarrow> None
            | c' # r \<Rightarrow>
                if c' = 0x7D then Some (Object [], r)
                else (case parse_members [] (skip_ws cs) of
                        None \<Rightarrow> None
                      | Some (kvs, r') \<Rightarrow> Some (Object kvs, r')))
         else if c = 0x5B then
           (case skip_ws cs of
              [] \<Rightarrow> None
            | c' # r \<Rightarrow>
                if c' = 0x5D then Some (Array [], r)
                else (case parse_elements [] (skip_ws cs) of
                        None \<Rightarrow> None
                      | Some (xs, r') \<Rightarrow> Some (Array xs, r')))
         else if c = 0x22 then
           (case parse_chars cs of
              None \<Rightarrow> None
            | Some (s, r) \<Rightarrow> Some (String s, r))
         else if take 4 inp = lit ''true'' then Some (Boolean True, drop 4 inp)
         else if take 5 inp = lit ''false'' then Some (Boolean False, drop 5 inp)
         else if take 4 inp = lit ''null'' then Some (Null, drop 4 inp)
         else
           (case parse_number inp of
              None \<Rightarrow> None
            | Some (n, r) \<Rightarrow> Some (Number n, r)))"
| "parse_elements acc inp =
    (case parse_value inp of
       None \<Rightarrow> None
     | Some (v, r) \<Rightarrow>
         (case skip_ws r of
            [] \<Rightarrow> None
          | c # r' \<Rightarrow>
              if c = 0x2C then
                (if length r' < length inp then parse_elements (acc @ [v]) (skip_ws r') else None)
              else if c = 0x5D then Some (acc @ [v], r')
              else None))"
| "parse_members acc inp =
    (case inp of
       [] \<Rightarrow> None
     | q # cs \<Rightarrow>
         if q \<noteq> 0x22 then None
         else
           (case parse_chars cs of
              None \<Rightarrow> None
            | Some (k, r) \<Rightarrow>
                (case skip_ws r of
                   [] \<Rightarrow> None
                 | c # r' \<Rightarrow>
                     if c \<noteq> 0x3A \<or> \<not> length (skip_ws r') < length inp then None
                     else
                       (case parse_value (skip_ws r') of
                          None \<Rightarrow> None
                        | Some (v, r'') \<Rightarrow>
                            (case skip_ws r'' of
                               [] \<Rightarrow> None
                             | c' # r3 \<Rightarrow>
                                 if c' = 0x2C then
                                   (if length r3 < length inp
                                    then parse_members (set_prop acc k v) (skip_ws r3)
                                    else None)
                                 else if c' = 0x7D then Some (set_prop acc k v, r3)
                                 else None)))))"
  by pat_completeness auto
termination
proof (relation "measure (\<lambda>x. case x of
    Inl inp \<Rightarrow> 2 * length inp
  | Inr (Inl (acc, inp)) \<Rightarrow> 2 * length inp + 1
  | Inr (Inr (acc, inp)) \<Rightarrow> 2 * length inp + 1)", goal_cases)
  case 1
  show ?case by simp
next
  case (2 inp c cs c' r)
  have "length (skip_ws cs) \<le> length cs"
    by (simp add: skip_ws_def length_dropWhile_le)
  then show ?case using 2 by simp
next
  case (3 inp c cs c' r)
  have "length (skip_ws cs) \<le> length cs"
    by (simp add: skip_ws_def length_dropWhile_le)
  then show ?case using 3 by simp
next
  case (4 acc inp)
  show ?case by simp
next
  case (5 acc inp p v r c r')
  have "length (skip_ws r') \<le> length r'"
    by (simp add: skip_ws_def length_dropWhile_le)
  then show ?case using 5 by simp
next
  case (6 acc inp q cs p k r c r')
  then show ?case by simp
next
  case (7 acc inp q cs p k r c r' p' v r'' c' r3)
  have "length (skip_ws r3) \<le> length r3"
    by (simp add: skip_ws_def length_dropWhile_le)
  then show ?case using 7 by simp
qed

declare parse_value.simps [simp del] parse_elements.simps [simp del] parse_members.simps [simp del]

definition JSON_parse :: "jsstring \<Rightarrow> jsvalue option" where
  "JSON_parse text =
    (case parse_value (skip_ws text) of
       None \<Rightarrow> None
     | Some (v, r) \<Rightarrow> if skip_ws r = [] then Some v else None)"

section \<open>Number values\<close>

text \<open>
  The sign, the digits and the decimal exponent of a numeral that \<open>parse_number\<close> has
  accepted: the numeral denotes, up to its sign, the digits times ten to the exponent.
\<close>

definition numeral_parts :: "jsstring \<Rightarrow> bool \<times> int \<times> int" where
  "numeral_parts n =
    (let negative = (take 1 n = [0x2D]);
         r0 = (if negative then drop 1 n else n);
         i = takeWhile is_digit r0;
         r1 = dropWhile is_digit r0;
         f = (if take 1 r1 = [0x2E] then takeWhile is_digit (drop 1 r1) else []);
         r2 = (if take 1 r1 = [0x2E] then dropWhile is_digit (drop 1 r1) else r1);
         e = (if take 1 (drop 1 r2) = [0x2D] then - decimal (drop 2 r2)
              else if take 1 (drop 1 r2) = [0x2B] then decimal (drop 2 r2)
              else decimal (drop 1 r2))
     in (negative, decimal (i @ f), e - int (length f)))"

text \<open>The number of binary, and of decimal, digits of a positive integer.\<close>

function bitlen :: "int \<Rightarrow> nat" where
  "bitlen n = (if n \<le> 0 then 0 else Suc (bitlen (n div 2)))"
  by pat_completeness auto

termination bitlen
  by (relation "measure nat") auto

declare bitlen.simps [simp del]

function declen :: "int \<Rightarrow> nat" where
  "declen n = (if n \<le> 0 then 0 else Suc (declen (n div 10)))"
  by pat_completeness auto

termination declen
  by (relation "measure nat") auto

declare declen.simps [simp del]

text \<open>Whether \<open>base ^ l \<le> a / b\<close>, for an exponent \<open>l\<close> of either sign and positive \<open>b\<close>.\<close>

definition power_le :: "int \<Rightarrow> int \<Rightarrow> int \<Rightarrow> int \<Rightarrow> bool" where
  "power_le base l a b =
    (if l < 0 then b \<le> a * base ^ nat (- l) else b * base ^ nat l \<le> a)"

text \<open>The integer \<open>l\<close> with \<open>2 ^ l \<le> a / b < 2 ^ (l + 1)\<close>, for positive \<open>a\<close> and \<open>b\<close>.\<close>

definition floor_log2 :: "int \<Rightarrow> int \<Rightarrow> int" where
  "floor_log2 a b =
    (let l = int (bitlen a) - int (bitlen b) in if power_le 2 l a b then l else l - 1)"

text \<open>The integer nearest to \<open>n / d\<close>, the even one of two that are equally near.\<close>

definition round_half_even :: "int \<Rightarrow> int \<Rightarrow> int" where
  "round_half_even n d =
    (let q = n div d; r = n mod d
     in if d < 2 * r \<or> (2 * r = d \<and> odd q) then q + 1 else q)"

text \<open>
  The magnitude of a Number value: \<open>Finite m e\<close> is \<open>m * 2 ^ e\<close> with \<open>m < 2 ^ 53\<close> and
  \<open>- 1074 \<le> e \<le> 971\<close>, written with \<open>2 ^ 52 \<le> m\<close> unless \<open>e = - 1074\<close>, and zero written
  \<open>Finite 0 0\<close>. \<open>to_double a b\<close> is the magnitude nearest to \<open>a / b\<close>, ties to the even
  significand, and infinity from \<open>2 ^ 1024 - 2 ^ 970\<close> on, as IEEE 754 rounds to nearest.
\<close>

datatype double = Finite int int | Infinity

definition to_double :: "int \<Rightarrow> int \<Rightarrow> double" where
  "to_double a b =
    (if a = 0 then Finite 0 0
     else
       let e = max (floor_log2 a b - 52) (- 1074);
           m = (if e < 0 then round_half_even (a * 2 ^ nat (- e)) b
                else round_half_even a (b * 2 ^ nat e))
       in if m = 0 then Finite 0 0
          else if m = 2 ^ 53 then (if 971 < e + 1 then Infinity else Finite (2 ^ 52) (e + 1))
          else if 971 < e then Infinity
          else Finite m e)"

text \<open>The magnitude nearest to \<open>s * 10 ^ p\<close>.\<close>

definition of_decimal :: "int \<Rightarrow> int \<Rightarrow> double" where
  "of_decimal s p = (if p < 0 then to_double s (10 ^ nat (- p)) else to_double (s * 10 ^ nat p) 1)"

text \<open>A Number value, its sign first; and the Number value that \<open>JSON.parse\<close> gives a numeral.\<close>

datatype number = Num bool double

definition numeral_value :: "jsstring \<Rightarrow> number" where
  "numeral_value n = (let (negative, m, e) = numeral_parts n in Num negative (of_decimal m e))"

text \<open>
  \<open>Number::toString\<close>, radix 10. For the finite nonzero \<open>x = a / b\<close> it takes the integers
  \<open>n\<close>, \<open>k\<close> and \<open>s\<close> with \<open>10 ^ (k - 1) \<le> s < 10 ^ k\<close> such that \<open>s * 10 ^ (n - k)\<close> has
  the Number value \<open>x\<close> and \<open>k\<close> is as small as possible; of several \<open>s\<close> the one nearest to
  \<open>x\<close>, as the engines choose. \<open>decimal_exponent\<close> is the \<open>n\<close> with
  \<open>10 ^ (n - 1) \<le> x < 10 ^ n\<close>; \<open>candidate\<close> tries, for a given \<open>p = n - k\<close>, the two
  multiples of \<open>10 ^ p\<close> that enclose \<open>x\<close>; \<open>shortest\<close> tries \<open>k = 1, 2, ...\<close> in turn,
  and seventeen digits always suffice.
\<close>

definition decimal_exponent :: "int \<Rightarrow> int \<Rightarrow> int" where
  "decimal_exponent a b =
    (let d = int (declen a) - int (declen b) in if power_le 10 d a b then d + 1 else d)"

definition candidate :: "double \<Rightarrow> int \<Rightarrow> int \<Rightarrow> int \<Rightarrow> int option" where
  "candidate x a b p =
    (let n = (if p < 0 then a * 10 ^ nat (- p) else a);
         d = (if p < 0 then b else b * 10 ^ nat p);
         lo = n div d;
         r = n mod d;
         lo_ok = (of_decimal lo p = x);
         hi_ok = (of_decimal (lo + 1) p = x)
     in if lo_ok \<and> hi_ok then Some (if 2 * r < d \<or> (2 * r = d \<and> even lo) then lo else lo + 1)
        else if lo_ok then Some lo
        else if hi_ok then Some (lo + 1)
        else None)"

fun shortest :: "double \<Rightarrow> int \<Rightarrow> int \<Rightarrow> int \<Rightarrow> nat list \<Rightarrow> int \<times> int" where
  "shortest x a b n [] = (0, 0)"
| "shortest x a b n (k # ks) =
    (case candidate x a b (n - int k) of
       Some s \<Rightarrow> (s, n - int k)
     | None \<Rightarrow> shortest x a b n ks)"

function digits_of :: "int \<Rightarrow> jsstring" where
  "digits_of n =
    (if n < 10 then [of_int (48 + n)] else digits_of (n div 10) @ [of_int (48 + n mod 10)])"
  by pat_completeness auto

termination digits_of
  by (relation "measure nat") auto

declare digits_of.simps [simp del]

text \<open>
  The digits of \<open>s\<close> without the zeros at their end are the \<open>k\<close> digits to print, and \<open>n\<close>
  says where the decimal point stands: plain digits up to \<open>10 ^ 21\<close>, a leading \<open>0.\<close> down
  to \<open>10 ^ - 7\<close>, and the exponent form outside.
\<close>

definition NumberToString_finite :: "int \<Rightarrow> int \<Rightarrow> jsstring" where
  "NumberToString_finite m e =
    (let a = (if e < 0 then m else m * 2 ^ nat e);
         b = (if e < 0 then 2 ^ nat (- e) else 1);
         (s, p) = shortest (Finite m e) a b (decimal_exponent a b) [1..<18];
         n = int (length (digits_of s)) + p;
         ds = rev (dropWhile (\<lambda>c. c = 0x30) (rev (digits_of s)));
         k = int (length ds)
     in if k \<le> n \<and> n \<le> 21 then ds @ replicate (nat (n - k)) 0x30
        else if 0 < n \<and> n \<le> 21 then take (nat n) ds @ [0x2E] @ drop (nat n) ds
        else if - 6 < n \<and> n \<le> 0 then [0x30, 0x2E] @ replicate (nat (- n)) 0x30 @ ds
        else (if k = 1 then ds else take 1 ds @ [0x2E] @ drop 1 ds) @ [0x65] @
             (if n - 1 < 0 then [0x2D] else [0x2B]) @ digits_of \<bar>n - 1\<bar>)"

fun NumberToString :: "number \<Rightarrow> jsstring" where
  "NumberToString (Num negative Infinity) = (if negative then [0x2D] else []) @ lit ''Infinity''"
| "NumberToString (Num negative (Finite m e)) =
    (if m = 0 then [0x30] else (if negative then [0x2D] else []) @ NumberToString_finite m e)"

section \<open>Truthiness and string concatenation\<close>

text \<open>
  A number is falsy when its Number value is zero, of either sign: when the digits of the
  numeral are all zero, and when the numeral is so small that it rounds to zero.
\<close>

definition numeral_is_zero :: "jsstring \<Rightarrow> bool" where
  "numeral_is_zero n =
    (case numeral_value n of
       Num negative (Finite m e) \<Rightarrow> m = 0
     | Num negative Infinity \<Rightarrow> False)"

fun js_truthy :: "jsvalue \<Rightarrow> bool" where
  "js_truthy Undefined = False"
| "js_truthy Null = False"
| "js_truthy (Boolean b) = b"
| "js_truthy (Number n) = (\<not> numeral_is_zero n)"
| "js_truthy (String s) = (s \<noteq> [])"
| "js_truthy (Array xs) = True"
| "js_truthy (Object kvs) = True"

text \<open>
  The string that \<open>accumulated += content\<close> concatenates for a value, and \<open>None\<close> when the
  coercion throws a \<open>TypeError\<close>. A string is itself; a number is printed by
  \<open>Number::toString\<close>; an array is its elements joined by commas, \<open>null\<close> and \<open>undefined\<close>
  elements as nothing. A plain object is \<open>[object Object]\<close> by the \<open>toString\<close> that it
  inherits; an own property named \<open>toString\<close> hides that method and, being a value of
  \<open>JSON.parse\<close>, is not callable, and the \<open>valueOf\<close> in reach returns no primitive, so that
  the coercion throws.
\<close>

fun ToString :: "jsvalue \<Rightarrow> jsstring option"
  and join_elements :: "jsvalue list \<Rightarrow> jsstring option" where
  "ToString Undefined = Some (lit ''undefined'')"
| "ToString Null = Some (lit ''null'')"
| "ToString (Boolean b) = Some (if b then lit ''true'' else lit ''false'')"
| "ToString (Number n) = Some (NumberToString (numeral_value n))"
| "ToString (String s) = Some s"
| "ToString (Array xs) = join_elements xs"
| "ToString (Object kvs) =
    (if map_of kvs (lit ''toString'') = None then Some (lit ''[object Object]'') else None)"
| "join_elements [] = Some []"
| "join_elements (x # xs) =
    (case (if x = Null \<or> x = Undefined then Some [] else ToString x) of
       None \<Rightarrow> None
     | Some s \<Rightarrow>
         (case join_elements xs of
            None \<Rightarrow> None
          | Some r \<Rightarrow> Some (s @ (if xs = [] then [] else [0x2C] @ r))))"

text \<open>
  What \<open>accumulated += content\<close> adds to the total: the string of the value, and nothing
  when the coercion throws, for the assignment does not take place then.
\<close>

definition js_to_string :: "jsvalue \<Rightarrow> jsstring" where
  "js_to_string v = (case ToString v of None \<Rightarrow> [] | Some s \<Rightarrow> s)"

section \<open>EventStreamDecoder: \<open>handleSSELine\<close> and \<open>consumeSSEStream\<close>\<close>

text \<open>What \<open>handleSSELine\<close> does with a line: the callback it invokes and the argument.\<close>

datatype sse_dispatch = ChatData jsvalue | ContentDelta jsvalue

text \<open>
  Everything after \<open>JSON.parse\<close> runs inside \<open>try\<close>: a \<open>SyntaxError\<close> of the parser and the
  \<open>TypeError\<close> of reading \<open>data.type\<close> when \<open>data\<close> is \<open>null\<close> are both caught, and the line
  is skipped.
\<close>

definition handleSSELine :: "jsstring \<Rightarrow> sse_dispatch option" where
  "handleSSELine line =
    (if \<not> startsWith line (lit ''data: '') then None
     else
       let jsonStr = trim (drop 6 line) in
       if jsonStr = [] then None
       else
         (case JSON_parse jsonStr of
            None \<Rightarrow> None
          | Some Null \<Rightarrow> None
          | Some data \<Rightarrow>
              if get_prop data (lit ''type'') = String (lit ''chat_metadata'') \<and>
                 js_truthy (get_prop data (lit ''id''))
              then Some (ChatData (get_prop data (lit ''id'')))
              else if get_prop data (lit ''type'') = String (lit ''content'') \<and>
                 js_truthy (get_prop data (lit ''content''))
              then Some (ContentDelta (get_prop data (lit ''content'')))
              else None))"

text \<open>
  The calls of the caller's two callbacks, in the order in which they are made. The
  \<open>onContent\<close> that \<open>consumeSSEStream\<close> passes to \<open>handleSSELine\<close> runs inside the
  \<open>try\<close> of \<open>handleSSELine\<close>: when \<open>accumulated += content\<close> throws, the total is not
  assigned, the caller's \<open>onContent\<close> is not reached, and the \<open>catch\<close> skips the line.
\<close>

datatype callback = onChatData jsvalue | onContent jsstring

record consumer =
  decoder :: utf8_decoder
  accumulated :: jsstring
  calls :: "callback list"

definition handle_line :: "jsstring \<Rightarrow> consumer \<Rightarrow> consumer" where
  "handle_line line st =
    (case handleSSELine line of
       None \<Rightarrow> st
     | Some (ChatData v) \<Rightarrow> st\<lparr>calls := calls st @ [onChatData v]\<rparr>
     | Some (ContentDelta v) \<Rightarrow>
         (case ToString v of
            None \<Rightarrow> st
          | Some s \<Rightarrow>
              (let acc = accumulated st @ s
               in st\<lparr>accumulated := acc, calls := calls st @ [onContent acc]\<rparr>)))"

text \<open>One pass of the read loop, for the chunk that \<open>reader.read()\<close> returned.\<close>

definition read_chunk :: "byte list \<Rightarrow> consumer \<Rightarrow> consumer" where
  "read_chunk chunk st =
    (let (d, text) = decode_stream (decoder st) chunk
     in fold handle_line (split_newline text) (st\<lparr>decoder := d\<rparr>))"

text \<open>
  A byte stream as its reader sees it: the chunks that the reads return, and whether the
  stream then ends or fails.
\<close>

datatype stream_end = Closed | Errored

definition consume :: "byte list list \<Rightarrow> consumer" where
  "consume chunks =
    fold read_chunk chunks \<lparr>decoder = new_decoder, accumulated = [], calls = []\<rparr>"

text \<open>The value the promise resolves to; \<open>None\<close> when a read fails and the promise is rejected.\<close>

definition consumeSSEStream :: "byte list list \<Rightarrow> stream_end \<Rightarrow> jsstring option" where
  "consumeSSEStream chunks ending =
    (case ending of
       Closed \<Rightarrow> Some (accumulated (consume chunks))
     | Errored \<Rightarrow> None)"

text \<open>
  Vocabulary for the properties of the decoder: the lines that the loop hands to
  \<open>handleSSELine\<close>, in the order of the reads; the payloads of the lines that are dispatched
  as content; the arguments of the \<open>onContent\<close> calls; the running totals of a sequence of
  increments; and a consumer whose decoder has emitted its first code point.
\<close>

fun lines_read :: "utf8_decoder \<Rightarrow> byte list list \<Rightarrow> jsstring list" where
  "lines_read d [] = []"
| "lines_read d (chunk # chunks) =
    (let (d', text) = decode_stream d chunk in split_newline text @ lines_read d' chunks)"

fun content_payloads :: "jsstring list \<Rightarrow> jsvalue list" where
  "content_payloads [] = []"
| "content_payloads (line # lines) =
    (case handleSSELine line of
       Some (ContentDelta v) \<Rightarrow> v # content_payloads lines
     | _ \<Rightarrow> content_payloads lines)"

fun content_calls :: "callback list \<Rightarrow> jsstring list" where
  "content_calls [] = []"
| "content_calls (onContent s # cs) = s # content_calls cs"
| "content_calls (onChatData v # cs) = content_calls cs"

fun is_string :: "jsvalue \<Rightarrow> bool" where
  "is_string (String s) = True"
| "is_string _ = False"

fun running_totals :: "jsstring \<Rightarrow> jsstring list \<Rightarrow> jsstring list" where
  "running_totals acc [] = []"
| "running_totals acc (c # cs) = (acc @ c) # running_totals (acc @ c) cs"

definition bom_done :: "consumer \<Rightarrow> consumer" where
  "bom_done st = st\<lparr>decoder := (decoder st)\<lparr>bom_seen := True\<rparr>\<rparr>"

section \<open>EventStreamEncoder: \<open>handleStreaming\<close>\<close>

text \<open>
  The provider's lazy sequence as \<open>for await\<close> sees it: the \<open>content\<close> of each chunk it
  yields, and whether it then completes or throws.
\<close>

datatype provider_end = Completes | Throws

record provider_stream =
  deltas :: "jsstring list"
  outcome :: provider_end

text \<open>
  The chat store: the messages of each chat, a message being its role and its text.
  \<open>addMessageToChat\<close> throws when the chat does not exist.
\<close>

type_synonym chat_store = "jsstring \<rightharpoonup> (jsstring \<times> jsstring) list"

definition addMessageToChat ::
  "chat_store \<Rightarrow> jsstring \<Rightarrow> jsstring \<Rightarrow> jsstring \<Rightarrow> chat_store option" where
  "addMessageToChat db chatId r c =
    (case db chatId of
       None \<Rightarrow> None
     | Some messages \<Rightarrow> Some (db(chatId \<mapsto> messages @ [(r, c)])))"

definition sse_frame :: "(jsstring \<times> jsstring) list \<Rightarrow> byte list" where
  "sse_frame obj = TextEncoder_encode (lit ''data: '' @ JSON_stringify obj @ [0x0A, 0x0A])"

definition metadata_frame :: "jsstring \<Rightarrow> byte list" where
  "metadata_frame activeChatId =
    sse_frame [(lit ''type'', lit ''chat_metadata''), (lit ''id'', activeChatId),
               (lit ''object'', lit ''chat'')]"

definition content_frame :: "jsstring \<Rightarrow> byte list" where
  "content_frame c = sse_frame [(lit ''type'', lit ''content''), (lit ''content'', c)]"

definition done_frame :: "byte list" where
  "done_frame = sse_frame [(lit ''type'', lit ''done'')]"

text \<open>The body of the \<open>for await\<close> loop: \<open>fullResponse\<close> and the chunks enqueued so far.\<close>

definition stream_step :: "jsstring \<Rightarrow> jsstring \<times> byte list list \<Rightarrow> jsstring \<times> byte list list" where
  "stream_step c st =
    (if c \<noteq> [] then (fst st @ c, snd st @ [content_frame c]) else st)"

text \<open>
  What a run of \<open>handleStreaming\<close> leaves behind: the chunks enqueued on the byte stream,
  how the stream ended, by \<open>controller.close\<close> or by \<open>controller.error\<close>, the texts passed to
  \<open>addMessageToChat\<close>, and the chat store afterwards.
\<close>

record response =
  enqueued :: "byte list list"
  ending :: stream_end
  persisted :: "jsstring list"
  store :: chat_store

definition handleStreaming :: "chat_store \<Rightarrow> provider_stream \<Rightarrow> jsstring \<Rightarrow> response" where
  "handleStreaming db stream activeChatId =
    (let (fullResponse, queue) = fold stream_step (deltas stream) ([], [metadata_frame activeChatId]) in
     case outcome stream of
       Throws \<Rightarrow> \<lparr>enqueued = queue, ending = Errored, persisted = [], store = db\<rparr>
     | Completes \<Rightarrow>
         if activeChatId \<noteq> [] then
           (case addMessageToChat db activeChatId (lit ''assistant'') fullResponse of
              None \<Rightarrow> \<lparr>enqueued = queue, ending = Errored, persisted = [fullResponse], store = db\<rparr>
            | Some db' \<Rightarrow>
                \<lparr>enqueued = queue @ [done_frame], ending = Closed,
                 persisted = [fullResponse], store = db'\<rparr>)
         else \<lparr>enqueued = queue @ [done_frame], ending = Closed, persisted = [], store = db\<rparr>)"

text \<open>
  Vocabulary for the properties of the encoder: the increments that are not empty, and the
  event that a frame carries, read back from its bytes as the decoder reads a line.
\<close>

definition nonempty :: "jsstring list \<Rightarrow> jsstring list" where
  "nonempty ds = filter (\<lambda>c. c \<noteq> []) ds"

definition frame_event :: "byte list \<Rightarrow> jsvalue option" where
  "frame_event frame =
    (case split_newline (snd (decode_stream new_decoder frame)) of
       [] \<Rightarrow> None
     | line # rest \<Rightarrow>
         if startsWith line (lit ''data: '') then JSON_parse (trim (drop 6 line)) else None)"

text \<open>
  A line that a conforming encoder never writes but the decoder accepts: its \<open>content\<close> is
  an empty array, in JavaScript a truthy value whose string form is empty. The line is the
  prefix \<open>data: \<close> and the object whose \<open>type\<close> is the string \<open>content\<close> and whose
  \<open>content\<close> is \<open>[]\<close>; the chunk is that line followed by an empty line, as
  \<open>TextEncoder\<close> encodes them.
\<close>

definition array_payload_line :: jsstring where
  "array_payload_line =
    lit ''data: {'' @ QuoteJSONString (lit ''type'') @ lit '':'' @
    QuoteJSONString (lit ''content'') @ lit '','' @ QuoteJSONString (lit ''content'') @ lit '':[]}''"

text \<open>
  Another such line: its \<open>content\<close> is an object with the one property \<open>toString\<close>, the
  number \<open>1\<close>. The object is truthy, and its coercion to a string throws.
\<close>

definition object_payload_line :: jsstring where
  "object_payload_line =
    lit ''data: {'' @ QuoteJSONString (lit ''type'') @ lit '':'' @
    QuoteJSONString (lit ''content'') @ lit '','' @ QuoteJSONString (lit ''content'') @
    lit '':{'' @ QuoteJSONString (lit ''toString'') @ lit '':1}}''"

definition array_payload_frame :: "byte list" where
  "array_payload_frame = TextEncoder_encode (array_payload_line @ [0x0A, 0x0A])"


chapter \<open>Properties\<close>

section \<open>Provider resolution\<close>

text \<open>
  Claim C4, as amended. \<open>getActiveProvider\<close> follows the precedence of the specification
  once the default-provider setting is read in lower case: a requested override that is one
  of \<open>openai\<close>, \<open>gemini\<close>, \<open>claude\<close> as written is returned, whatever the credentials;
  otherwise the lower-cased setting \<open>AI_PROVIDER\<close> when it is one of the three names;
  otherwise the first of OpenAI, Gemini, Claude whose credential variable is set to a
  non-empty value; otherwise \<open>openai\<close>.
\<close>

theorem getActiveProvider_precedence:
  "getActiveProvider requested env =
     resolve_spec requested (env\<lparr>AI_PROVIDER := map_option toLowerCase (AI_PROVIDER env)\<rparr>)"
proof -
  have d: "lit ''gemini'' \<noteq> lit ''openai''" "lit ''claude'' \<noteq> lit ''openai''"
    "lit ''claude'' \<noteq> lit ''gemini''"
    by (simp_all add: lit_def ch_def)
  show ?thesis using d
    by (cases "AI_PROVIDER env")
      (auto simp: getActiveProvider_def resolve_spec_def valid_member_def first_configured_def
        getAvailableProviders_def Let_def)
qed

text \<open>
  Claim C4 as stated fails: the setting \<open>GEMINI\<close> is not one of the three names, so the
  stated precedence goes on to the credentials and returns \<open>openai\<close>; the code lower-cases
  the setting and returns \<open>gemini\<close>.
\<close>

theorem getActiveProvider_lowercases_setting:
  "getActiveProvider None
     \<lparr>AI_PROVIDER = Some (lit ''GEMINI''), OPENAI_API_KEY = Some (lit ''sk-1''),
      GEMINI_API_KEY = None, ANTHROPIC_API_KEY = None\<rparr> = gemini
   \<and> resolve_spec None
     \<lparr>AI_PROVIDER = Some (lit ''GEMINI''), OPENAI_API_KEY = Some (lit ''sk-1''),
      GEMINI_API_KEY = None, ANTHROPIC_API_KEY = None\<rparr> = openai"
  by (simp add: getActiveProvider_def resolve_spec_def valid_member_def first_configured_def
      getAvailableProviders_def Let_def toLowerCase_def lit_def ch_def)

section \<open>Gemini normalization\<close>

lemma join_newline_snoc:
  "join_newline (xs @ [s]) = (if xs = [] then s else join_newline xs @ [0x0A] @ s)"
  by (induction xs rule: join_newline.induct) auto

lemma join_newline_Cons_empty: "join_newline (x # xs) = [] \<Longrightarrow> x = []"
  by (cases xs) auto

lemma instruction_snoc:
  "join_newline (dropWhile (\<lambda>s. s = []) (xs @ [s])) =
    join_newline (dropWhile (\<lambda>s. s = []) xs) @
      (if join_newline (dropWhile (\<lambda>s. s = []) xs) \<noteq> [] then [0x0A] else []) @ s"
proof (induction xs)
  case Nil
  show ?case by simp
next
  case (Cons x xs)
  show ?case
  proof (cases "x = []")
    case True
    then show ?thesis using Cons by simp
  next
    case False
    then have "join_newline (x # xs) \<noteq> []"
      using join_newline_Cons_empty by blast
    moreover have "join_newline ((x # xs) @ [s]) = join_newline (x # xs) @ [0x0A] @ s"
      by (simp only: join_newline_snoc) simp
    ultimately show ?thesis using False by simp
  qed
qed

lemma system_texts_step:
  assumes "n < length messages"
  shows "system_texts (take (Suc n) messages) =
    system_texts (take n messages) @
      (if role (messages ! n) = lit ''system'' then [content (messages ! n)] else [])"
  using assms by (simp add: take_Suc_conv_app_nth system_texts_def)

lemma last_is_nth:
  assumes "n < length messages" "n = length messages - 1"
  shows "last messages = messages ! n"
  using assms by (cases "messages = []") (simp_all add: last_conv_nth)

lemma final_turn_at_end:
  assumes "n < length messages"
  shows "(n = length messages - 1 \<and> role (messages ! n) = lit ''user'') \<longleftrightarrow>
    (Suc n = length messages \<and> final_turn_extracted messages)"
proof (cases "n = length messages - 1")
  case True
  then have "last messages = messages ! n" using assms last_is_nth by blast
  moreover have "messages \<noteq> []" using assms by auto
  moreover have "Suc n = length messages" using True assms by simp
  ultimately show ?thesis using True by (simp add: final_turn_extracted_def)
next
  case False
  then show ?thesis by auto
qed

lemma kept_step:
  assumes "n < length messages"
  shows "filter (\<lambda>m. role m \<noteq> lit ''system'') (take (kept messages (Suc n)) messages) =
    filter (\<lambda>m. role m \<noteq> lit ''system'') (take (kept messages n) messages) @
      (if role (messages ! n) \<noteq> lit ''system'' \<and>
          \<not> (n = length messages - 1 \<and> role (messages ! n) = lit ''user'')
       then [messages ! n] else [])"
proof (cases "Suc n = length messages \<and> final_turn_extracted messages")
  case True
  then have "kept messages (Suc n) = n" "kept messages n = n"
    by (auto simp: kept_def)
  moreover have "n = length messages - 1 \<and> role (messages ! n) = lit ''user''"
    using True final_turn_at_end [OF assms] by blast
  ultimately show ?thesis by auto
next
  case False
  then have k: "kept messages (Suc n) = Suc n" "kept messages n = n"
    using assms by (auto simp: kept_def)
  have "\<not> (n = length messages - 1 \<and> role (messages ! n) = lit ''user'')"
    using False final_turn_at_end [OF assms] by blast
  then show ?thesis using assms
    by (simp only: k take_Suc_conv_app_nth filter_append) simp
qed

lemma gemini_step_result:
  assumes "n < length messages"
  shows "gemini_step messages n (loop_result messages n) = loop_result messages (Suc n)"
proof -
  have sys: "lit ''system'' \<noteq> lit ''user''" by (simp add: lit_def ch_def)
  have nl: "n \<noteq> length messages" using assms by simp
  note ft = final_turn_at_end [OF assms]
  note st = system_texts_step [OF assms]
  note kp = kept_step [OF assms]
  show ?thesis
  proof (cases "role (messages ! n) = lit ''system''")
    case True
    then have "\<not> (n = length messages - 1 \<and> role (messages ! n) = lit ''user'')"
      using sys by simp
    then have nf: "\<not> (Suc n = length messages \<and> final_turn_extracted messages)"
      using ft by blast
    show ?thesis
      unfolding gemini_step_def loop_result_def Let_def st kp
      using True nf nl by (auto simp: instruction_snoc)
  next
    case False
    show ?thesis
    proof (cases "n = length messages - 1 \<and> role (messages ! n) = lit ''user''")
      case True
      then have e: "Suc n = length messages \<and> final_turn_extracted messages"
        using ft by blast
      have "last messages = messages ! n" using True assms last_is_nth by blast
      then show ?thesis
        unfolding gemini_step_def loop_result_def Let_def st kp
        using True False e nl by auto
    next
      case F2: False
      then have nf: "\<not> (Suc n = length messages \<and> final_turn_extracted messages)"
        using ft by blast
      show ?thesis
        unfolding gemini_step_def loop_result_def Let_def st kp
        using False F2 nf nl by (auto simp: relay_def)
    qed
  qed
qed

lemma gemini_loop:
  "n \<le> length messages \<Longrightarrow>
   fold (gemini_step messages) [0..<n] \<lparr>systemInstruction = [], history = [], lastMessage = []\<rparr> =
   loop_result messages n"
proof (induction n)
  case 0
  then show ?case
    by (auto simp: loop_result_def system_texts_def final_turn_extracted_def kept_def)
next
  case (Suc n)
  then show ?case by (simp add: gemini_step_result)
qed

text \<open>
  Claim C5, as amended. The instruction string is the newline-join of the system messages'
  texts in order, after the empty texts that precede the first non-empty one are dropped;
  the history relays, in order, every message that is not a system message, \<open>assistant\<close>
  as \<open>model\<close> and any other role as \<open>user\<close>, except the last message when its role is
  \<open>user\<close>; that message's text is the final turn, and the final turn is empty otherwise.
\<close>

theorem toGeminiMessages_shape:
  "systemInstruction (toGeminiMessages messages) =
     join_newline (dropWhile (\<lambda>s. s = []) (system_texts messages))
   \<and> history (toGeminiMessages messages) =
     map relay (filter (\<lambda>m. role m \<noteq> lit ''system'')
       (if final_turn_extracted messages then butlast messages else messages))
   \<and> lastMessage (toGeminiMessages messages) =
     (if final_turn_extracted messages then content (last messages) else [])"
proof -
  have "toGeminiMessages messages = loop_result messages (length messages)"
    by (simp add: toGeminiMessages_def gemini_loop)
  moreover have "take (kept messages (length messages)) messages =
      (if final_turn_extracted messages then butlast messages else messages)"
    by (simp add: kept_def butlast_conv_take)
  ultimately show ?thesis by (simp add: loop_result_def)
qed

text \<open>
  Claim C5 as stated fails: for an empty system message followed by the system message
  \<open>a\<close> the instruction string is \<open>a\<close>, while the two texts joined by a newline are a
  newline followed by \<open>a\<close>.
\<close>

theorem toGeminiMessages_leading_empty_system:
  "systemInstruction (toGeminiMessages
      [\<lparr>role = lit ''system'', content = []\<rparr>, \<lparr>role = lit ''system'', content = lit ''a''\<rparr>]) = lit ''a''
   \<and> join_newline (system_texts
      [\<lparr>role = lit ''system'', content = []\<rparr>, \<lparr>role = lit ''system'', content = lit ''a''\<rparr>]) = 0x0A # lit ''a''"
  by (simp add: toGeminiMessages_def gemini_step_def system_texts_def upt_rec [of 0] upt_rec [of 1]
      Let_def lit_def ch_def)

section \<open>Identifier recovery\<close>

lemma isValidChatId_length: "isValidChatId s \<longleftrightarrow> 15 < length s"
proof -
  have "length (lit ''hello-world'') = 11" by (simp add: lit_def)
  then show ?thesis by (auto simp: isValidChatId_def)
qed

lemma valid_id_field_truthy: "valid_id_field v k = Some s \<Longrightarrow> str_truthy (Some s)"
  by (auto simp: valid_id_field_def split: jsvalue.splits if_splits)

lemma own_hits_truthy: "s \<in> set (own_hits v) \<Longrightarrow> str_truthy (Some s)"
  by (auto simp: own_hits_def split: option.splits
      dest!: valid_id_field_truthy valid_id_field_truthy [OF sym])

lemma search_found:
  "str_truthy f \<Longrightarrow> search f v = f"
  "str_truthy f \<Longrightarrow> forEach_search f xs = f"
  "str_truthy f \<Longrightarrow> forEach_values f kvs = f"
  by (induction f v and f xs and f kvs rule: search_forEach_search_forEach_values.induct) auto

lemma first_of_append: "first_of (xs @ ys) = (case first_of xs of None \<Rightarrow> first_of ys | Some x \<Rightarrow> Some x)"
  by (cases xs) auto

lemma accepted_truthy:
  "s \<in> set (accepted_preorder v) \<Longrightarrow> str_truthy (Some s)"
  "s \<in> set (accepted_list xs) \<Longrightarrow> str_truthy (Some s)"
  "s \<in> set (accepted_values kvs) \<Longrightarrow> str_truthy (Some s)"
  by (induction v and xs and kvs rule: accepted_preorder_accepted_list_accepted_values.induct)
    (auto dest: own_hits_truthy)


lemma first_of_mem: "first_of xs = Some x \<Longrightarrow> x \<in> set xs"
  by (cases xs) auto

lemma search_first:
  "search None v = first_of (accepted_preorder v)"
  "forEach_search None xs = first_of (accepted_list xs)"
  "forEach_values None kvs = first_of (accepted_values kvs)"
proof (induction v and xs and kvs rule: accepted_preorder_accepted_list_accepted_values.induct)
  case (1 xs)
  then show ?case by simp
next
  case (2 kvs)
  show ?case
  proof (cases "valid_id_field (Object kvs) (lit ''chatId'')")
    case (Some s)
    then show ?thesis by (simp add: own_hits_def)
  next
    case n1: None
    show ?thesis
    proof (cases "valid_id_field (Object kvs) (lit ''id'')")
      case (Some s)
      then show ?thesis using n1 by (simp add: own_hits_def)
    next
      case None
      then show ?thesis using n1 2 by (simp add: own_hits_def)
    qed
  qed
next
  case (9 x xs)
  show ?case
  proof (cases "first_of (accepted_preorder x)")
    case None
    then have "search None x = None" using 9(1) by simp
    then show ?thesis using None 9(2) by (simp add: first_of_append)
  next
    case (Some s)
    have "str_truthy (Some s)"
      by (rule accepted_truthy(1) [OF first_of_mem [OF Some]])
    then have "forEach_search (Some s) xs = Some s" by (rule search_found(2))
    moreover have "search None x = Some s" using 9(1) Some by simp
    ultimately show ?thesis using Some by (simp add: first_of_append)
  qed
next
  case (11 kv kvs)
  show ?case
  proof (cases "first_of (accepted_preorder (snd kv))")
    case None
    then have "search None (snd kv) = None" using 11(1) by simp
    then show ?thesis using None 11(2) by (simp add: first_of_append)
  next
    case (Some s)
    have "str_truthy (Some s)"
      by (rule accepted_truthy(1) [OF first_of_mem [OF Some]])
    then have "forEach_values (Some s) kvs = Some s" by (rule search_found(3))
    moreover have "search None (snd kv) = Some s" using 11(1) Some by simp
    ultimately show ?thesis using Some by (simp add: first_of_append)
  qed
qed simp_all

lemma map_of_absent: "k \<notin> fst ` set kvs \<Longrightarrow> map_of kvs k = None"
  by (simp add: map_of_eq_None_iff)

lemma no_id_fields_accepted:
  "no_id_fields v \<Longrightarrow> accepted_preorder v = []"
  "no_id_fields_list xs \<Longrightarrow> accepted_list xs = []"
  "no_id_fields_values kvs \<Longrightarrow> accepted_values kvs = []"
  by (induction v and xs and kvs rule: accepted_preorder_accepted_list_accepted_values.induct)
    (auto simp: own_hits_def valid_id_field_def map_of_absent)


lemma recover_placeholder: "extractChatIdFromContent [Object [(lit ''id'', String (lit ''hello-world''))]] = None"
  by (simp add: extractChatIdFromContent_def valid_id_field_def isValidChatId_def lit_def ch_def)

lemma recover_short: "extractChatIdFromContent [Object [(lit ''id'', String (lit ''short''))]] = None"
  by (simp add: extractChatIdFromContent_def valid_id_field_def isValidChatId_def lit_def ch_def)

lemma recover_empty: "extractChatIdFromContent [] = None \<and> extractChatIdFromContent [Array []] = None"
  by (simp add: extractChatIdFromContent_def)

lemma recover_uuid: "extractChatIdFromContent [Object [(lit ''chatId'', String (lit ''a1b2c3d4-e5f6-7890-aaaa-bbbbccccdddd''))]]
   = Some (lit ''a1b2c3d4-e5f6-7890-aaaa-bbbbccccdddd'')"
  by (simp add: extractChatIdFromContent_def valid_id_field_def isValidChatId_length lit_def ch_def)

text \<open>
  Claim C6. A candidate is accepted exactly when it is not \<open>hello-world\<close>, is longer than
  10, and either has a hyphen and is longer than 20 or is longer than 15; the result is the
  first accepted candidate in depth-first pre-order, \<open>chatId\<close> before \<open>id\<close> at each node, so
  that the search stops at the first acceptance; nothing is returned for a structure with
  no field of these names at any depth, nor for the placeholder, a short identifier or an
  empty array; the long hyphenated \<open>chatId\<close> is returned.
\<close>

theorem extractChatIdFromContent_recover:
  "(isValidChatId s \<longleftrightarrow>
      s \<noteq> lit ''hello-world'' \<and> 10 < length s \<and>
      ((ch CHR ''-'' \<in> set s \<and> 20 < length s) \<or> 15 < length s))
   \<and> extractChatIdFromContent contents = first_of (accepted_list contents)
   \<and> (valid_id_field (Object kvs) (lit ''chatId'') = Some a \<longrightarrow>
        extractChatIdFromContent (Object kvs # rest) = Some a)
   \<and> (valid_id_field (Object kvs) (lit ''chatId'') = None \<and>
        valid_id_field (Object kvs) (lit ''id'') = Some b \<longrightarrow>
        extractChatIdFromContent (Object kvs # rest) = Some b)
   \<and> (no_id_fields_list contents \<longrightarrow> extractChatIdFromContent contents = None)
   \<and> extractChatIdFromContent [Object [(lit ''id'', String (lit ''hello-world''))]] = None
   \<and> extractChatIdFromContent [Object [(lit ''id'', String (lit ''short''))]] = None
   \<and> extractChatIdFromContent [] = None
   \<and> extractChatIdFromContent [Array []] = None
   \<and> extractChatIdFromContent
        [Object [(lit ''chatId'', String (lit ''a1b2c3d4-e5f6-7890-aaaa-bbbbccccdddd''))]]
       = Some (lit ''a1b2c3d4-e5f6-7890-aaaa-bbbbccccdddd'')"
proof -
  have v: "isValidChatId s \<longleftrightarrow>
      s \<noteq> lit ''hello-world'' \<and> 10 < length s \<and>
      ((ch CHR ''-'' \<in> set s \<and> 20 < length s) \<or> 15 < length s)"
    by (auto simp: isValidChatId_def)
  have f: "extractChatIdFromContent contents = first_of (accepted_list contents)"
    by (simp add: extractChatIdFromContent_def search_first)
  have c: "valid_id_field (Object kvs) (lit ''chatId'') = Some a \<longrightarrow>
      extractChatIdFromContent (Object kvs # rest) = Some a"
  proof
    assume h: "valid_id_field (Object kvs) (lit ''chatId'') = Some a"
    have "str_truthy (Some a)" by (rule valid_id_field_truthy [OF h])
    then have "forEach_search (Some a) rest = Some a" by (rule search_found(2))
    then show "extractChatIdFromContent (Object kvs # rest) = Some a"
      using h by (simp add: extractChatIdFromContent_def)
  qed
  have i: "valid_id_field (Object kvs) (lit ''chatId'') = None \<and>
      valid_id_field (Object kvs) (lit ''id'') = Some b \<longrightarrow>
      extractChatIdFromContent (Object kvs # rest) = Some b"
  proof
    assume h: "valid_id_field (Object kvs) (lit ''chatId'') = None \<and>
      valid_id_field (Object kvs) (lit ''id'') = Some b"
    have "str_truthy (Some b)" using h valid_id_field_truthy by blast
    then have "forEach_search (Some b) rest = Some b" by (rule search_found(2))
    then show "extractChatIdFromContent (Object kvs # rest) = Some b"
      using h by (simp add: extractChatIdFromContent_def)
  qed
  have n: "no_id_fields_list contents \<longrightarrow> extractChatIdFromContent contents = None"
    by (simp add: f no_id_fields_accepted)
  show ?thesis
    using v f c i n recover_placeholder recover_short recover_empty recover_uuid
    by blast
qed

theorem extractChatIdFromContent_recover_witness:
  "isValidChatId (lit ''a1b2c3d4-e5f6-7890'')
   \<and> extractChatIdFromContent
        [Object [(lit ''chatId'', String (lit ''a1b2c3d4-e5f6-7890'')),
                 (lit ''id'', String (lit ''0123456789abcdef0''))], Null]
       = Some (lit ''a1b2c3d4-e5f6-7890'')
   \<and> extractChatIdFromContent
        [Object [(lit ''chatId'', String (lit ''tiny'')),
                 (lit ''id'', String (lit ''0123456789abcdef0''))], Null]
       = Some (lit ''0123456789abcdef0'')
   \<and> extractChatIdFromContent
        [Array [Null, Object [(lit ''name'', String (lit ''a1b2c3d4-e5f6-7890''))]]] = None"
  using extractChatIdFromContent_recover
    [of "lit ''a1b2c3d4-e5f6-7890''"
        "[Array [Null, Object [(lit ''name'', String (lit ''a1b2c3d4-e5f6-7890''))]]]"
        "[(lit ''chatId'', String (lit ''a1b2c3d4-e5f6-7890'')),
          (lit ''id'', String (lit ''0123456789abcdef0''))]"
        "lit ''a1b2c3d4-e5f6-7890''" "[Null]"]
    extractChatIdFromContent_recover
    [of "[]" "[]"
        "[(lit ''chatId'', String (lit ''tiny'')),
          (lit ''id'', String (lit ''0123456789abcdef0''))]"
        "[]" "[Null]" "lit ''0123456789abcdef0''"]
  by (simp add: valid_id_field_def own_hits_def isValidChatId_length lit_def ch_def)

lemma search_fuel_enough:
  "nesting v \<le> n \<Longrightarrow> search_fuel n f v = Some (search f v)"
  "nesting_list xs \<le> n \<Longrightarrow> forEach_search_fuel n f xs = Some (forEach_search f xs)"
  "nesting_values kvs \<le> n \<Longrightarrow> forEach_values_fuel n f kvs = Some (forEach_values f kvs)"
proof (induction n f v and n f xs and n f kvs rule: search_fuel_forEach_search_fuel_forEach_values_fuel.induct)
  case (1 foundChatId obj)
  then show ?case by (cases obj) auto
next
  case (3 n foundChatId kvs)
  show ?case
  proof (cases "str_truthy foundChatId")
    case True
    then show ?thesis by simp
  next
    case nf: False
    show ?thesis
    proof (cases "valid_id_field (Object kvs) (lit ''chatId'')")
      case (Some s)
      then show ?thesis using nf by simp
    next
      case n1: None
      show ?thesis
      proof (cases "valid_id_field (Object kvs) (lit ''id'')")
        case (Some s)
        then show ?thesis using nf n1 by simp
      next
        case None
        have "nesting_values kvs \<le> n" using 3(2) by simp
        then have "forEach_values_fuel n foundChatId kvs = Some (forEach_values foundChatId kvs)"
          using 3(1) [OF nf n1 None] by blast
        then show ?thesis using nf n1 None by simp
      qed
    qed
  qed
next
  case (10 n foundChatId x xs)
  from 10(3) have a: "nesting x \<le> n" and b: "nesting_list xs \<le> n" by simp_all
  have "search_fuel n foundChatId x = Some (search foundChatId x)" using 10(1) a by blast
  moreover from this have
    "forEach_search_fuel n (search foundChatId x) xs = Some (forEach_search (search foundChatId x) xs)"
    using 10(2) b by blast
  ultimately show ?case by simp
next
  case (12 n foundChatId kv kvs)
  from 12(3) have a: "nesting (snd kv) \<le> n" and b: "nesting_values kvs \<le> n" by simp_all
  have "search_fuel n foundChatId (snd kv) = Some (search foundChatId (snd kv))"
    using 12(1) a by blast
  moreover from this have
    "forEach_values_fuel n (search foundChatId (snd kv)) kvs =
       Some (forEach_values (search foundChatId (snd kv)) kvs)"
    using 12(2) b by blast
  ultimately show ?case by simp
qed simp_all

text \<open>
  Claim C10. On every finite nested value the search returns: a call stack as deep as the
  nesting of the value (or deeper) is enough, and the result is that of
  \<open>extractChatIdFromContent\<close>.
\<close>

theorem extractChatIdFromContent_returns:
  "extractChatIdFromContent_fuel (nesting_list contents + k) contents =
     Some (extractChatIdFromContent contents)"
  by (simp add: extractChatIdFromContent_fuel_def extractChatIdFromContent_def search_fuel_enough)

section \<open>\<open>TextDecoder\<close> inverts \<open>TextEncoder\<close>\<close>

lemma byte_unat: "n < 256 \<Longrightarrow> unat (of_nat n :: byte) = n"
  by (simp add: unat_of_nat)

lemma unit_unat: "n < 65536 \<Longrightarrow> unat (of_nat n :: code_unit) = n"
  by (simp add: unat_of_nat)

lemma decode_stream_append:
  "decode_stream d (a @ b) =
    (let (d1, s) = decode_stream d a; (d2, t) = decode_stream d1 b in (d2, s @ t))"
  by (induction a arbitrary: d) (simp_all add: Let_def split: prod.splits)

lemma decode_one:
  assumes "pending_none d" "cp < 0x80"
  shows "decode_stream d [of_nat cp] = (d\<lparr>bom_seen := True\<rparr>, [of_nat cp])"
  using assms
  by (cases d)
    (simp add: pending_none_def utf8_handler_def lead_byte_def Let_def byte_unat utf16_def)

lemma mod_off: "(q::nat) < m \<Longrightarrow> (k * m + q) mod m = q"
  by simp

lemma base64_split:
  obtains q r :: nat where "x = q * 64 + r" "r < 64" "x div 64 = q" "x mod 64 = r"
  using div_mult_mod_eq [of x 64] by (metis mod_less_divisor zero_less_numeral)

lemma decode_two:
  assumes "pending_none d" "0x80 \<le> cp" "cp < 0x800"
  shows "decode_stream d [of_nat (0xC0 + cp div 64), of_nat (0x80 + cp mod 64)] =
    (d\<lparr>bom_seen := True\<rparr>, [of_nat cp])"
proof -
  obtain q r where s: "cp = q * 64 + r" "r < 64" "cp div 64 = q" "cp mod 64 = r"
    by (rule base64_split)
  have q: "2 \<le> q" "q < 32" using assms(2,3) s(1,2) by linarith+
  have m: "(192 + q) mod 32 = q" "(128 + r) mod 64 = r"
    using mod_off [of q 32 6] mod_off [of r 64 2] q s(2) by simp_all
  have "unat (of_nat (192 + q) :: byte) = 192 + q"
    using q by (intro byte_unat) linarith
  moreover have "unat (of_nat (128 + r) :: byte) = 128 + r"
    using s(2) by (intro byte_unat) linarith
  ultimately have u: "unat (192 + of_nat q :: byte) = 192 + q" "unat (128 + of_nat r :: byte) = 128 + r"
    by simp_all
  have n: "q * 64 + r \<noteq> 0xFEFF" "q * 64 + r < 0x10000" using assms(3) s(1) by simp_all
  show ?thesis
    unfolding s(3,4)
    using assms(1) q s(2) n
    by (cases d)
      (simp add: pending_none_def utf8_handler_def lead_byte_def reset_sequence_def Let_def
        u m utf16_def s(1))
qed

lemma decode_three:
  assumes "pending_none d" "0x800 \<le> cp" "cp < 0x10000" "cp < 0xD800 \<or> 0xDFFF < cp"
    "bom_seen d \<or> cp \<noteq> 0xFEFF"
  shows "decode_stream d
      [of_nat (0xE0 + cp div 4096), of_nat (0x80 + cp div 64 mod 64), of_nat (0x80 + cp mod 64)] =
    (d\<lparr>bom_seen := True\<rparr>, [of_nat cp])"
proof -
  obtain q r where s: "cp = q * 64 + r" "r < 64" "cp div 64 = q" "cp mod 64 = r"
    by (rule base64_split)
  obtain a b where t: "q = a * 64 + b" "b < 64" "q div 64 = a" "q mod 64 = b"
    by (rule base64_split)
  have dv: "cp div 4096 = a" using div_mult2_eq [of cp 64 64] s(3) t(3) by simp
  have e: "cp = a * 4096 + b * 64 + r" using s(1) t(1) by simp
  have a: "a < 16" using assms(3) e by linarith
  have lo: "a = 0 \<Longrightarrow> 32 \<le> b" using assms(2) e s(2) by linarith
  have hi: "a = 13 \<Longrightarrow> b < 32" using assms(4) e s(2) t(2) by linarith
  have m: "(224 + a) mod 16 = a" "(128 + b) mod 64 = b" "(128 + r) mod 64 = r"
    using mod_off [of a 16 14] mod_off [of b 64 2] mod_off [of r 64 2] a t(2) s(2) by simp_all
  have "unat (of_nat (224 + a) :: byte) = 224 + a"
    using a by (intro byte_unat) linarith
  moreover have "unat (of_nat (128 + b) :: byte) = 128 + b"
    using t(2) by (intro byte_unat) linarith
  moreover have "unat (of_nat (128 + r) :: byte) = 128 + r"
    using s(2) by (intro byte_unat) linarith
  ultimately have u: "unat (224 + of_nat a :: byte) = 224 + a"
    "unat (128 + of_nat b :: byte) = 128 + b" "unat (128 + of_nat r :: byte) = 128 + r"
    by simp_all
  have v: "(a * 64 + b) * 64 + r = cp" using e by simp
  consider "a = 0" | "a = 13" | "a \<noteq> 0" "a \<noteq> 13" by blast
  then show ?thesis
  proof cases
    case 1
    then show ?thesis
      unfolding dv s(3,4) t(4)
      using assms(1,3,5) lo s(2) t(2)
      by (cases d)
        (auto simp add: pending_none_def utf8_handler_def lead_byte_def reset_sequence_def Let_def
          u m e utf16_def)
  next
    case 2
    then show ?thesis
      unfolding dv s(3,4) t(4)
      using assms(1,3,5) hi s(2) t(2)
      by (cases d)
        (auto simp add: pending_none_def utf8_handler_def lead_byte_def reset_sequence_def Let_def
          u m e utf16_def)
  next
    case 3
    then show ?thesis
      unfolding dv s(3,4) t(4)
      using assms(1,3,5) a s(2) t(2)
      by (cases d)
        (auto simp add: pending_none_def utf8_handler_def lead_byte_def reset_sequence_def Let_def
          u m e utf16_def)
  qed
qed

lemma decode_four:
  assumes "pending_none d" "0x10000 \<le> cp" "cp < 0x110000"
  shows "decode_stream d
      [of_nat (0xF0 + cp div 262144), of_nat (0x80 + cp div 4096 mod 64),
       of_nat (0x80 + cp div 64 mod 64), of_nat (0x80 + cp mod 64)] =
    (d\<lparr>bom_seen := True\<rparr>, utf16 cp)"
proof -
  obtain q r where s: "cp = q * 64 + r" "r < 64" "cp div 64 = q" "cp mod 64 = r"
    by (rule base64_split)
  obtain p b where t: "q = p * 64 + b" "b < 64" "q div 64 = p" "q mod 64 = b"
    by (rule base64_split)
  obtain a c where w: "p = a * 64 + c" "c < 64" "p div 64 = a" "p mod 64 = c"
    by (rule base64_split)
  have dv: "cp div 4096 = p" using div_mult2_eq [of cp 64 64] s(3) t(3) by simp
  have dw: "cp div 262144 = a" using div_mult2_eq [of cp 4096 64] dv w(3) by simp
  have e: "cp = a * 262144 + c * 4096 + b * 64 + r" using s(1) t(1) w(1) by simp
  have a: "a \<le> 4" using assms(3) e by linarith
  have lo: "a = 0 \<Longrightarrow> 16 \<le> c" using assms(2) e s(2) t(2) by linarith
  have hi: "a = 4 \<Longrightarrow> c < 16" using assms(3) e by linarith
  have m: "(240 + a) mod 8 = a" "(128 + c) mod 64 = c" "(128 + b) mod 64 = b" "(128 + r) mod 64 = r"
    using mod_off [of a 8 30] mod_off [of c 64 2] mod_off [of b 64 2] mod_off [of r 64 2]
      a w(2) t(2) s(2) by simp_all
  have "unat (of_nat (240 + a) :: byte) = 240 + a"
    using a by (intro byte_unat) linarith
  moreover have "unat (of_nat (128 + c) :: byte) = 128 + c"
    using w(2) by (intro byte_unat) linarith
  moreover have "unat (of_nat (128 + b) :: byte) = 128 + b"
    using t(2) by (intro byte_unat) linarith
  moreover have "unat (of_nat (128 + r) :: byte) = 128 + r"
    using s(2) by (intro byte_unat) linarith
  ultimately have u: "unat (240 + of_nat a :: byte) = 240 + a"
    "unat (128 + of_nat c :: byte) = 128 + c"
    "unat (128 + of_nat b :: byte) = 128 + b" "unat (128 + of_nat r :: byte) = 128 + r"
    by simp_all
  have v: "((a * 64 + c) * 64 + b) * 64 + r = cp" using e by simp
  have n: "cp \<noteq> 0xFEFF" using assms(2) by simp
  have k: "e' < 0x10000 \<Longrightarrow> \<not> 0x10000 \<le> e'" for e' :: nat by simp
  consider "a = 0" | "a = 4" | "a \<noteq> 0" "a \<noteq> 4" by blast
  then show ?thesis
  proof cases
    case 1
    then show ?thesis
      unfolding dv dw s(3,4) t(4) w(4)
      using assms(1,2) lo s(2) t(2) w(2) n v
      by (cases d)
        (auto simp add: pending_none_def utf8_handler_def lead_byte_def reset_sequence_def Let_def
          u m)
  next
    case 2
    then show ?thesis
      unfolding dv dw s(3,4) t(4) w(4)
      using assms(1,2) hi s(2) t(2) w(2) n v
      by (cases d)
        (auto simp add: pending_none_def utf8_handler_def lead_byte_def reset_sequence_def Let_def
          u m)
  next
    case 3
    then show ?thesis
      unfolding dv dw s(3,4) t(4) w(4)
      using assms(1,2) a s(2) t(2) w(2) n v
      by (cases d)
        (auto simp add: pending_none_def utf8_handler_def lead_byte_def reset_sequence_def Let_def
          u m)
  qed
qed

lemma decode_code_point:
  assumes "pending_none d" "cp < 0xD800 \<or> (0xDFFF < cp \<and> cp < 0x110000)"
    "bom_seen d \<or> cp \<noteq> 0xFEFF"
  shows "decode_stream d (utf8_bytes cp) = (d\<lparr>bom_seen := True\<rparr>, utf16 cp)"
proof -
  consider "cp < 0x80" | "0x80 \<le> cp" "cp < 0x800" | "0x800 \<le> cp" "cp < 0x10000"
    | "0x10000 \<le> cp"
    by linarith
  then show ?thesis
  proof cases
    case 1
    then show ?thesis using decode_one [OF assms(1)] by (simp add: utf8_bytes_def utf16_def)
  next
    case 2
    then show ?thesis using decode_two [OF assms(1)] by (simp add: utf8_bytes_def utf16_def)
  next
    case 3
    then have "cp < 0xD800 \<or> 0xDFFF < cp" using assms(2) by linarith
    then show ?thesis using 3 decode_three [OF assms(1) 3(1) 3(2) _ assms(3)]
      by (simp add: utf8_bytes_def utf16_def)
  next
    case 4
    then have "cp < 0x110000" using assms(2) by linarith
    then show ?thesis using 4 decode_four [OF assms(1) 4]
      by (simp add: utf8_bytes_def)
  qed
qed

lemma surrogate_nat:
  "is_high_surrogate c \<longleftrightarrow> 0xD800 \<le> unat c \<and> unat c \<le> 0xDBFF"
  "is_low_surrogate c \<longleftrightarrow> 0xDC00 \<le> unat c \<and> unat c \<le> 0xDFFF"
  by (simp_all add: is_high_surrogate_def is_low_surrogate_def word_le_nat_alt)

lemma unat_unit_bound: "unat (c :: code_unit) < 65536"
  using unsigned_less [of c] by simp

lemma utf16_unit: "utf16 (unat (c :: code_unit)) = [c]"
  using unat_unit_bound [of c] by (simp add: utf16_def)

lemma utf16_pair:
  assumes "is_high_surrogate hi" "is_low_surrogate lo"
  shows "utf16 (pair_code_point hi lo) = [hi, lo]"
proof -
  define h where "h = unat hi - 0xD800"
  define l where "l = unat lo - 0xDC00"
  have hl: "h < 1024" "l < 1024" "unat hi = 0xD800 + h" "unat lo = 0xDC00 + l"
    using assms unfolding h_def l_def surrogate_nat by linarith+
  have p: "pair_code_point hi lo = 0x10000 + (h * 1024 + l)"
    by (simp add: pair_code_point_def h_def l_def)
  have "(h * 1024 + l) div 1024 = h" "(h * 1024 + l) mod 1024 = l"
    using hl(1,2) by simp_all
  then have "utf16 (pair_code_point hi lo) = [of_nat (unat hi), of_nat (unat lo)]"
    unfolding p hl(3,4) by (simp add: utf16_def del: of_nat_add of_nat_numeral)
  then show ?thesis by simp
qed

lemma pair_code_point_range:
  assumes "is_high_surrogate hi" "is_low_surrogate lo"
  shows "0x10000 \<le> pair_code_point hi lo" "pair_code_point hi lo < 0x110000"
  using assms unfolding surrogate_nat pair_code_point_def by linarith+

lemma pending_none_bom [simp]: "pending_none (d\<lparr>bom_seen := x\<rparr>) = pending_none d"
  by (simp add: pending_none_def)

lemma TextDecoder_inverts_TextEncoder:
  "well_formed s \<Longrightarrow> pending_none d \<Longrightarrow> bom_seen d \<or> s = [] \<or> hd s \<noteq> 0xFEFF \<Longrightarrow>
   decode_stream d (TextEncoder_encode s) = ((if s = [] then d else d\<lparr>bom_seen := True\<rparr>), s)"
proof (induction s arbitrary: d rule: well_formed.induct)
  case 1
  then show ?case by simp
next
  case (2 c)
  then have ns: "unat c < 0xD800 \<or> (0xDFFF < unat c \<and> unat c < 0x110000)"
    using unat_unit_bound [of c] unfolding well_formed.simps surrogate_nat by linarith
  have "bom_seen d \<or> unat c \<noteq> 0xFEFF"
    using 2(3) by (auto simp: word_unat_eq_iff)
  then show ?case
    using 2(1) decode_code_point [OF 2(2) ns] by (simp add: utf16_unit)
next
  case (3 c c' cs)
  let ?d = "d\<lparr>bom_seen := True\<rparr>"
  have pd: "pending_none ?d" using 3(4) by simp
  show ?case
  proof (cases "is_high_surrogate c \<and> is_low_surrogate c'")
    case True
    then have wf: "well_formed cs" using 3(3) by simp
    have r: "0xDFFF < pair_code_point c c' \<and> pair_code_point c c' < 0x110000"
      "pair_code_point c c' \<noteq> 0xFEFF"
      using pair_code_point_range [of c c'] True by linarith+
    have a: "decode_stream d (utf8_bytes (pair_code_point c c')) = (?d, [c, c'])"
      using decode_code_point [OF 3(4), of "pair_code_point c c'"] r True
      by (simp add: utf16_pair)
    have b: "decode_stream ?d (TextEncoder_encode cs) = (?d, cs)"
      using 3(1) [OF True wf pd] by (cases cs) simp_all
    show ?thesis using True a b by (simp add: decode_stream_append)
  next
    case False
    then have wf: "\<not> is_high_surrogate c" "\<not> is_low_surrogate c" "well_formed (c' # cs)"
      using 3(3) by (auto split: if_splits)
    have ns: "unat c < 0xD800 \<or> (0xDFFF < unat c \<and> unat c < 0x110000)"
      using unat_unit_bound [of c] wf(1,2) unfolding surrogate_nat by linarith
    have "bom_seen d \<or> unat c \<noteq> 0xFEFF"
      using 3(5) by (auto simp: word_unat_eq_iff)
    then have a: "decode_stream d (utf8_bytes (unat c)) = (?d, [c])"
      using decode_code_point [OF 3(4) ns] by (simp add: utf16_unit)
    have b: "decode_stream ?d (TextEncoder_encode (c' # cs)) = (?d, c' # cs)"
      using 3(2) [OF False wf(3) pd] by simp
    show ?thesis using False wf a b by (simp add: decode_stream_append)
  qed
qed

section \<open>\<open>JSON.parse\<close> inverts \<open>JSON.stringify\<close>\<close>

lemma base16_split:
  obtains q r :: nat where "x = q * 16 + r" "r < 16" "x div 16 = q" "x mod 16 = r"
  using div_mult_mod_eq [of x 16] by (metis mod_less_divisor zero_less_numeral)

lemma hex_value_digit: "d < 16 \<Longrightarrow> hex_value (hex_digit d) = Some d"
proof -
  assume d: "d < 16"
  show ?thesis
  proof (cases "d < 10")
    case True
    define c :: code_unit where "c = of_nat (0x30 + d)"
    have u: "unat c = 0x30 + d" unfolding c_def using True by (intro unit_unat) linarith
    have "hex_digit d = c" using True by (simp only: hex_digit_def c_def if_True)
    then show ?thesis using True by (simp add: hex_value_def word_le_nat_alt u)
  next
    case False
    define c :: code_unit where "c = of_nat (0x61 + (d - 10))"
    have u: "unat c = 0x61 + (d - 10)" unfolding c_def using d by (intro unit_unat) linarith
    have "hex_digit d = c" using False by (simp only: hex_digit_def c_def if_False)
    then show ?thesis using False d by (simp add: hex_value_def word_le_nat_alt u)
  qed
qed

lemma hex4_unicode_escape:
  "hex4 (hex_digit (unat c div 4096)) (hex_digit (unat c div 256 mod 16))
     (hex_digit (unat c div 16 mod 16)) (hex_digit (unat c mod 16)) = Some c"
proof -
  obtain q r where s: "unat c = q * 16 + r" "r < 16" "unat c div 16 = q" "unat c mod 16 = r"
    by (rule base16_split)
  obtain p b where t: "q = p * 16 + b" "b < 16" "q div 16 = p" "q mod 16 = b"
    by (rule base16_split)
  obtain a e where w: "p = a * 16 + e" "e < 16" "p div 16 = a" "p mod 16 = e"
    by (rule base16_split)
  have dv: "unat c div 256 = p" using div_mult2_eq [of "unat c" 16 16] s(3) t(3) by simp
  have dw: "unat c div 4096 = a" using div_mult2_eq [of "unat c" 256 16] dv w(3) by simp
  have v: "((a * 16 + e) * 16 + b) * 16 + r = unat c" using s(1) t(1) w(1) by simp
  have "unat c = a * 4096 + e * 256 + b * 16 + r" using s(1) t(1) w(1) by simp
  then have a: "a < 16" using unat_unit_bound [of c] by linarith
  have "hex4 (hex_digit a) (hex_digit e) (hex_digit b) (hex_digit r) =
      Some (of_nat (((a * 16 + e) * 16 + b) * 16 + r))"
    using a w(2) t(2) s(2) by (simp add: hex4_def hex_value_digit del: of_nat_add of_nat_mult)
  then show ?thesis unfolding dv dw s(3,4) t(4) w(4) v by simp
qed

lemma quote_unit_parse: "parse_chars (quote_unit c @ r) = cons_result c (parse_chars r)"
proof -
  have u: "parse_chars (unicode_escape c @ r) = cons_result c (parse_chars r)"
    by (simp add: unicode_escape_def Let_def hex4_unicode_escape)
  show ?thesis
    by (auto simp add: quote_unit_def u simple_escape_def)
qed

lemma surrogate_plain:
  assumes "is_high_surrogate c \<or> is_low_surrogate c"
  shows "c \<noteq> 0x22" "c \<noteq> 0x5C" "\<not> c < 0x20" "c \<noteq> 0x0A"
  using assms by (auto simp: surrogate_nat word_less_nat_alt)

lemma quote_units_parse: "parse_chars (quote_units s @ 0x22 # r) = Some (s, r)"
proof (induction s rule: quote_units.induct)
  case 1
  show ?case by simp
next
  case (2 c)
  show ?case by (simp add: quote_unit_parse cons_result_def)
next
  case (3 c c' cs)
  show ?case
  proof (cases "is_high_surrogate c \<and> is_low_surrogate c'")
    case True
    then show ?thesis
      using 3(1) surrogate_plain [of c] surrogate_plain [of c']
      by (simp add: cons_result_def)
  next
    case False
    then have q: "quote_units (c # c' # cs) = quote_unit c @ quote_units (c' # cs)"
      by (simp only: quote_units.simps if_False)
    have ih: "parse_chars (quote_units (c' # cs) @ 0x22 # r) = Some (c' # cs, r)"
      using 3(2) False by blast
    show ?thesis
      unfolding q using ih
      by (simp add: quote_unit_parse cons_result_def del: quote_units.simps)
  qed
qed

lemma quote_unit_no_newline: "0x0A \<notin> set (quote_unit c)"
proof -
  have h: "hex_digit d \<noteq> 0x0A" if "d < 16" for d
  proof (cases "d < 10")
    case True
    have "unat (of_nat (0x30 + d) :: code_unit) = 0x30 + d"
      using True by (intro unit_unat) linarith
    then show ?thesis using True
      by (simp only: hex_digit_def if_True word_unat_eq_iff) simp
  next
    case False
    have "unat (of_nat (0x61 + (d - 10)) :: code_unit) = 0x61 + (d - 10)"
      using that by (intro unit_unat) linarith
    then show ?thesis using False
      by (simp only: hex_digit_def if_False word_unat_eq_iff) simp
  qed
  have "0x0A \<notin> set (unicode_escape c)"
    using unat_unit_bound [of c]
    by (simp add: unicode_escape_def Let_def h less_mult_imp_div_less)
  then show ?thesis
    by (auto simp add: quote_unit_def)
qed

lemma quote_units_no_newline: "0x0A \<notin> set (quote_units s)"
proof (induction s rule: quote_units.induct)
  case (3 c c' cs)
  then show ?case
    using surrogate_plain(4) [of c] surrogate_plain(4) [of c'] quote_unit_no_newline [of c]
    by (auto split: if_splits)
qed (simp_all add: quote_unit_no_newline)

lemma well_formed_append: "well_formed a \<Longrightarrow> well_formed b \<Longrightarrow> well_formed (a @ b)"
proof (induction a rule: well_formed.induct)
  case 1
  then show ?case by simp
next
  case (2 c)
  then show ?case by (cases b) simp_all
next
  case (3 c c' cs)
  then show ?case by (auto split: if_splits)
qed

lemma no_surrogates_well_formed: "no_surrogates s \<Longrightarrow> well_formed s"
  by (induction s rule: well_formed.induct) (simp_all add: no_surrogates_def)

lemma ascii_no_surrogate: "c < 0x80 \<Longrightarrow> \<not> is_high_surrogate c \<and> \<not> is_low_surrogate c"
  by (auto simp: surrogate_nat word_less_nat_alt)

lemma hex_digit_ascii: "d < 16 \<Longrightarrow> hex_digit d < 0x80"
proof (cases "d < 10")
  case True
  have "unat (of_nat (0x30 + d) :: code_unit) = 0x30 + d"
    using True by (intro unit_unat) linarith
  then show ?thesis using True
    by (simp only: hex_digit_def if_True word_less_nat_alt) simp
next
  case False
  assume d: "d < 16"
  have "unat (of_nat (0x61 + (d - 10)) :: code_unit) = 0x61 + (d - 10)"
    using d by (intro unit_unat) linarith
  then show ?thesis using False d
    by (simp only: hex_digit_def if_False word_less_nat_alt) simp
qed

lemma quote_unit_no_surrogates: "no_surrogates (quote_unit c)"
proof -
  have "no_surrogates (unicode_escape c)"
    using unat_unit_bound [of c]
    by (simp add: no_surrogates_def unicode_escape_def Let_def ascii_no_surrogate
        hex_digit_ascii less_mult_imp_div_less)
  then show ?thesis
    by (auto simp add: quote_unit_def no_surrogates_def ascii_no_surrogate)
qed

lemma quote_units_well_formed: "well_formed (quote_units s)"
proof (induction s rule: quote_units.induct)
  case 1
  show ?case by simp
next
  case (2 c)
  show ?case by (simp add: no_surrogates_well_formed quote_unit_no_surrogates)
next
  case (3 c c' cs)
  show ?case
  proof (cases "is_high_surrogate c \<and> is_low_surrogate c'")
    case True
    then show ?thesis using 3(1) by simp
  next
    case False
    then have q: "quote_units (c # c' # cs) = quote_unit c @ quote_units (c' # cs)"
      by (simp only: quote_units.simps if_False)
    have "well_formed (quote_units (c' # cs))" using 3(2) False by blast
    moreover have "well_formed (quote_unit c)"
      by (intro no_surrogates_well_formed quote_unit_no_surrogates)
    ultimately show ?thesis unfolding q by (intro well_formed_append)
  qed
qed

lemma QuoteJSONString_well_formed: "well_formed (QuoteJSONString s)"
  unfolding QuoteJSONString_def
  by (intro well_formed_append quote_units_well_formed) (simp_all add: ascii_no_surrogate)

lemma QuoteJSONString_no_newline: "0x0A \<notin> set (QuoteJSONString s)"
  by (simp add: QuoteJSONString_def quote_units_no_newline)

lemma stringify_members_well_formed: "well_formed (stringify_members kvs)"
proof (induction kvs rule: stringify_members.induct)
  case 1
  show ?case by simp
next
  case (2 k v)
  show ?case unfolding stringify_members.simps
    by (intro well_formed_append QuoteJSONString_well_formed) (simp_all add: ascii_no_surrogate)
next
  case (3 k v kv kvs)
  show ?case unfolding stringify_members.simps
    by (intro well_formed_append QuoteJSONString_well_formed 3) (simp_all add: ascii_no_surrogate)
qed

lemma stringify_members_no_newline: "0x0A \<notin> set (stringify_members kvs)"
  by (induction kvs rule: stringify_members.induct) (simp_all add: QuoteJSONString_no_newline)

lemma JSON_stringify_well_formed: "well_formed (JSON_stringify kvs)"
  unfolding JSON_stringify_def
  by (intro well_formed_append stringify_members_well_formed) (simp_all add: ascii_no_surrogate)

lemma JSON_stringify_no_newline: "0x0A \<notin> set (JSON_stringify kvs)"
  by (simp add: JSON_stringify_def stringify_members_no_newline)

lemma skip_ws_nonspace: "\<not> is_json_ws c \<Longrightarrow> skip_ws (c # r) = c # r"
  by (simp add: skip_ws_def)

lemma json_punctuation:
  "\<not> is_json_ws 0x22" "\<not> is_json_ws 0x3A" "\<not> is_json_ws 0x2C" "\<not> is_json_ws 0x7D"
  "\<not> is_json_ws 0x7B"
  by (simp_all add: is_json_ws_def)

lemma set_prop_fresh:
  "k \<notin> fst ` set acc \<Longrightarrow> array_index k = None \<Longrightarrow> set_prop acc k v = acc @ [(k, v)]"
  by (simp add: set_prop_def)

lemma stringify_members_starts:
  "kvs \<noteq> [] \<Longrightarrow> \<exists>t. stringify_members kvs = 0x22 # t"
  by (induction kvs rule: stringify_members.induct) (simp_all add: QuoteJSONString_def)

lemma parse_string_value:
  "parse_value (QuoteJSONString v @ r) = Some (String v, r)"
  by (simp add: parse_value.simps QuoteJSONString_def quote_units_parse)

lemma parse_member:
  assumes "k \<notin> fst ` set acc" "array_index k = None"
  shows "parse_members acc (QuoteJSONString k @ 0x3A # QuoteJSONString v @ 0x7D # r) =
      Some (acc @ [(k, String v)], r)"
    and "parse_members acc (QuoteJSONString k @ 0x3A # QuoteJSONString v @ 0x2C # 0x22 # t) =
      parse_members (acc @ [(k, String v)]) (0x22 # t)"
proof -
  have q: "QuoteJSONString v @ x = 0x22 # quote_units v @ 0x22 # x" for x
    by (simp add: QuoteJSONString_def)
  show "parse_members acc (QuoteJSONString k @ 0x3A # QuoteJSONString v @ 0x7D # r) =
      Some (acc @ [(k, String v)], r)"
    using assms
    by (subst parse_members.simps)
      (simp add: QuoteJSONString_def quote_units_parse skip_ws_nonspace json_punctuation
        parse_string_value [unfolded QuoteJSONString_def, simplified] set_prop_fresh)
  show "parse_members acc (QuoteJSONString k @ 0x3A # QuoteJSONString v @ 0x2C # 0x22 # t) =
      parse_members (acc @ [(k, String v)]) (0x22 # t)"
    using assms
    by (subst parse_members.simps)
      (simp add: QuoteJSONString_def quote_units_parse skip_ws_nonspace json_punctuation
        parse_string_value [unfolded QuoteJSONString_def, simplified] set_prop_fresh)
qed

lemma parse_members_stringify:
  "kvs \<noteq> [] \<Longrightarrow> distinct (map fst kvs) \<Longrightarrow> fst ` set acc \<inter> fst ` set kvs = {} \<Longrightarrow>
   \<forall>k \<in> fst ` set kvs. array_index k = None \<Longrightarrow>
   parse_members acc (stringify_members kvs @ 0x7D # r) =
     Some (acc @ map (\<lambda>kv. (fst kv, String (snd kv))) kvs, r)"
proof (induction kvs arbitrary: acc rule: stringify_members.induct)
  case 1
  then show ?case by simp
next
  case (2 k v)
  then have "k \<notin> fst ` set acc" "array_index k = None" by auto
  then show ?case by (simp add: parse_member(1))
next
  case (3 k v kv kvs)
  have f: "k \<notin> fst ` set acc" using 3(4) by auto
  have g: "array_index k = None" using 3(5) by auto
  obtain t where t: "stringify_members (kv # kvs) = 0x22 # t"
    using stringify_members_starts [of "kv # kvs"] by auto
  have ih: "parse_members (acc @ [(k, String v)]) (stringify_members (kv # kvs) @ 0x7D # r) =
      Some ((acc @ [(k, String v)]) @ map (\<lambda>kv. (fst kv, String (snd kv))) (kv # kvs), r)"
  proof (rule 3(1))
    show "kv # kvs \<noteq> []" by simp
    show "distinct (map fst (kv # kvs))" using 3(3) by simp
    show "fst ` set (acc @ [(k, String v)]) \<inter> fst ` set (kv # kvs) = {}"
      using 3(3,4) by auto
    show "\<forall>k \<in> fst ` set (kv # kvs). array_index k = None"
      using 3(5) by auto
  qed
  have "parse_members acc (stringify_members ((k, v) # kv # kvs) @ 0x7D # r) =
      parse_members (acc @ [(k, String v)]) (0x22 # t @ 0x7D # r)"
    using parse_member(2) [OF f g, of v "t @ 0x7D # r"] by (simp add: t)
  then show ?case using ih by (simp add: t)
qed

lemma JSON_parse_stringify:
  assumes "distinct (map fst kvs)" "\<forall>k \<in> fst ` set kvs. array_index k = None"
  shows "JSON_parse (JSON_stringify kvs) = Some (string_object kvs)"
proof (cases kvs)
  case Nil
  then show ?thesis
    by (simp add: JSON_parse_def JSON_stringify_def string_object_def parse_value.simps
        skip_ws_nonspace json_punctuation skip_ws_def)
next
  case (Cons kv kvs')
  obtain t where t: "stringify_members kvs = 0x22 # t"
    using stringify_members_starts [of kvs] Cons by auto
  have "parse_members [] (stringify_members kvs @ [0x7D]) =
      Some (map (\<lambda>kv. (fst kv, String (snd kv))) kvs, [])"
    using parse_members_stringify [of kvs "[]" "[]"] assms Cons by simp
  then show ?thesis
    by (simp add: JSON_parse_def JSON_stringify_def string_object_def parse_value.simps
        skip_ws_nonspace json_punctuation t skip_ws_def)
qed

section \<open>Frames and lines\<close>

lemma trim_stringify: "trim (JSON_stringify kvs) = JSON_stringify kvs"
  by (simp add: trim_def JSON_stringify_def is_trim_space_def)

lemma data_prefix:
  "startsWith (lit ''data: '' @ x) (lit ''data: '')" "drop 6 (lit ''data: '' @ x) = x"
  by (simp_all add: startsWith_def lit_def)

lemma JSON_stringify_nonempty: "JSON_stringify kvs \<noteq> []"
  by (simp add: JSON_stringify_def)

lemma handleSSELine_stringify:
  assumes "distinct (map fst kvs)" "\<forall>k \<in> fst ` set kvs. array_index k = None"
  shows "handleSSELine (lit ''data: '' @ JSON_stringify kvs) =
    (let data = string_object kvs in
     if get_prop data (lit ''type'') = String (lit ''chat_metadata'') \<and>
        js_truthy (get_prop data (lit ''id''))
     then Some (ChatData (get_prop data (lit ''id'')))
     else if get_prop data (lit ''type'') = String (lit ''content'') \<and>
        js_truthy (get_prop data (lit ''content''))
     then Some (ContentDelta (get_prop data (lit ''content'')))
     else None)"
  by (simp only: handleSSELine_def data_prefix trim_stringify Let_def
      JSON_parse_stringify [OF assms])
    (simp add: JSON_stringify_nonempty string_object_def)

lemma key_plain:
  "array_index (lit ''type'') = None" "array_index (lit ''id'') = None"
  "array_index (lit ''object'') = None" "array_index (lit ''content'') = None"
  by (simp_all add: array_index_def is_digit_def lit_def ch_def)

lemma key_names:
  "lit ''type'' \<noteq> lit ''id''" "lit ''type'' \<noteq> lit ''object''" "lit ''id'' \<noteq> lit ''object''"
  "lit ''type'' \<noteq> lit ''content''" "lit ''id'' \<noteq> lit ''content''"
  "lit ''chat_metadata'' \<noteq> lit ''content''" "lit ''done'' \<noteq> lit ''content''"
  "lit ''done'' \<noteq> lit ''chat_metadata''"
  by (simp_all add: lit_def ch_def)

lemma handleSSELine_metadata:
  "handleSSELine (lit ''data: '' @ JSON_stringify
      [(lit ''type'', lit ''chat_metadata''), (lit ''id'', i), (lit ''object'', lit ''chat'')]) =
    (if i \<noteq> [] then Some (ChatData (String i)) else None)"
  using key_names key_plain by (subst handleSSELine_stringify) (auto simp: string_object_def Let_def)

lemma handleSSELine_content:
  "handleSSELine (lit ''data: '' @ JSON_stringify
      [(lit ''type'', lit ''content''), (lit ''content'', c)]) =
    (if c \<noteq> [] then Some (ContentDelta (String c)) else None)"
  using key_names key_plain by (subst handleSSELine_stringify) (auto simp: string_object_def Let_def)

lemma handleSSELine_done:
  "handleSSELine (lit ''data: '' @ JSON_stringify [(lit ''type'', lit ''done'')]) = None"
  using key_names key_plain by (subst handleSSELine_stringify) (auto simp: string_object_def Let_def)

lemma handleSSELine_blank: "handleSSELine [] = None"
  by (simp add: handleSSELine_def startsWith_def lit_def)

lemma split_newline_line:
  "0x0A \<notin> set a \<Longrightarrow> split_newline (a @ 0x0A # b) = a # split_newline b"
  by (induction a) (auto split: list.splits)

lemma frame_text_well_formed: "well_formed (lit ''data: '' @ JSON_stringify kvs @ [0x0A, 0x0A])"
  by (intro well_formed_append JSON_stringify_well_formed)
    (simp_all add: lit_def ch_def ascii_no_surrogate is_high_surrogate_def is_low_surrogate_def)

lemma decode_sse_frame:
  assumes "pending_none d"
  shows "decode_stream d (sse_frame kvs) =
    (d\<lparr>bom_seen := True\<rparr>, lit ''data: '' @ JSON_stringify kvs @ [0x0A, 0x0A])"
  unfolding sse_frame_def
  using TextDecoder_inverts_TextEncoder [OF frame_text_well_formed assms, of kvs]
  by (simp add: lit_def ch_def)

lemma frame_lines:
  "split_newline (lit ''data: '' @ JSON_stringify kvs @ [0x0A, 0x0A]) =
    [lit ''data: '' @ JSON_stringify kvs, [], []]"
proof -
  have "0x0A \<notin> set (lit ''data: '' @ JSON_stringify kvs)"
    by (simp add: JSON_stringify_no_newline lit_def ch_def)
  then show ?thesis
    using split_newline_line [of "lit ''data: '' @ JSON_stringify kvs" "[0x0A]"] by simp
qed

lemma handle_line_blank: "handle_line [] st = st"
  by (simp add: handle_line_def handleSSELine_blank)

lemma read_sse_frame:
  assumes "pending_none (decoder st)"
  shows "read_chunk (sse_frame kvs) st =
    handle_line (lit ''data: '' @ JSON_stringify kvs) (st\<lparr>decoder := (decoder st)\<lparr>bom_seen := True\<rparr>\<rparr>)"
  by (simp add: read_chunk_def decode_sse_frame [OF assms] frame_lines handle_line_blank)

lemma handle_line_decoder [simp]: "decoder (handle_line line st) = decoder st"
  by (simp add: handle_line_def Let_def split: option.splits sse_dispatch.splits)

lemma handle_line_decoder_update:
  "handle_line line (st\<lparr>decoder := d\<rparr>) = (handle_line line st)\<lparr>decoder := d\<rparr>"
  by (simp add: handle_line_def Let_def split: option.splits sse_dispatch.splits)

lemma fold_handle_line_decoder_update:
  "fold handle_line lines (st\<lparr>decoder := d\<rparr>) = (fold handle_line lines st)\<lparr>decoder := d\<rparr>"
  by (induction lines arbitrary: st) (simp_all add: handle_line_decoder_update)

lemma fold_handle_line_decoder [simp]: "decoder (fold handle_line lines st) = decoder st"
  by (induction lines arbitrary: st) simp_all

lemma fold_read_chunk_lines:
  "accumulated (fold read_chunk chunks st) =
     accumulated (fold handle_line (lines_read (decoder st) chunks) st) \<and>
   calls (fold read_chunk chunks st) =
     calls (fold handle_line (lines_read (decoder st) chunks) st)"
proof (induction chunks arbitrary: st)
  case Nil
  show ?case by simp
next
  case (Cons chunk chunks)
  obtain d decoded where dt: "decode_stream (decoder st) chunk = (d, decoded)"
    by (cases "decode_stream (decoder st) chunk")
  let ?st = "fold handle_line (split_newline decoded) (st\<lparr>decoder := d\<rparr>)"
  have r: "read_chunk chunk st = ?st" by (simp add: read_chunk_def dt)
  have d: "decoder ?st = d" by simp
  have e: "fold handle_line ls ?st = (fold handle_line (split_newline decoded @ ls) st)\<lparr>decoder := d\<rparr>" for ls
    by (simp add: fold_handle_line_decoder_update)
  show ?case
    using Cons [of ?st] by (simp add: r d dt e)
qed

lemma concat_js_to_string:
  "concat (map js_to_string vs) = concat (List.map_filter ToString vs)"
  by (induction vs) (simp_all add: js_to_string_def split: option.splits)

lemma handle_lines_content:
  "accumulated (fold handle_line lines st) =
     accumulated st @ concat (List.map_filter ToString (content_payloads lines)) \<and>
   content_calls (calls (fold handle_line lines st)) =
     content_calls (calls st) @
       running_totals (accumulated st) (List.map_filter ToString (content_payloads lines))"
proof (induction lines arbitrary: st)
  case Nil
  show ?case by simp
next
  case (Cons line lines)
  have cc: "content_calls (xs @ ys) = content_calls xs @ content_calls ys" for xs ys
    by (induction xs rule: content_calls.induct) simp_all
  show ?case
  proof (cases "handleSSELine line")
    case None
    then show ?thesis using Cons [of st] by (simp add: handle_line_def)
  next
    case (Some e)
    show ?thesis
    proof (cases e)
      case (ChatData v)
      then show ?thesis
        using Some Cons [of "st\<lparr>calls := calls st @ [onChatData v]\<rparr>"]
        by (simp add: handle_line_def cc)
    next
      case (ContentDelta v)
      show ?thesis
      proof (cases "ToString v")
        case None
        then show ?thesis
          using Some ContentDelta Cons [of st] by (simp add: handle_line_def)
      next
        case (Some t)
        then show ?thesis
          using \<open>handleSSELine line = Some e\<close> ContentDelta
            Cons [of "st\<lparr>accumulated := accumulated st @ t,
              calls := calls st @ [onContent (accumulated st @ t)]\<rparr>"]
          by (simp add: handle_line_def Let_def cc)
      qed
    qed
  qed
qed

lemma content_payloads_truthy: "v \<in> set (content_payloads lines) \<Longrightarrow> js_truthy v"
proof (induction lines)
  case Nil
  then show ?case by simp
next
  case (Cons line lines)
  then show ?case
    by (auto simp: handleSSELine_def Let_def
        split: option.splits sse_dispatch.splits if_splits jsvalue.splits)
qed

lemma running_totals_increasing:
  "\<forall>s \<in> set ss. s \<noteq> [] \<Longrightarrow>
   sorted_wrt (<) (map length (running_totals acc ss)) \<and>
   (\<forall>t \<in> set (running_totals acc ss). length acc < length t)"
proof (induction ss arbitrary: acc)
  case Nil
  show ?case by simp
next
  case (Cons s ss)
  have ih: "sorted_wrt (<) (map length (running_totals (acc @ s) ss))"
    "\<forall>t \<in> set (running_totals (acc @ s) ss). length (acc @ s) < length t"
    using Cons.IH [of "acc @ s"] Cons.prems by simp_all
  have "s \<noteq> []" using Cons.prems by simp
  then show ?case using ih by fastforce
qed

lemma stream_loop:
  "fold stream_step ds (acc, queue) =
    (acc @ concat (nonempty ds), queue @ map content_frame (nonempty ds))"
  by (induction ds arbitrary: acc queue) (simp_all add: stream_step_def nonempty_def)

lemma concat_nonempty: "concat (nonempty ds) = concat ds"
  by (induction ds) (simp_all add: nonempty_def)

lemma handleStreaming_queue:
  "enqueued (handleStreaming db stream activeChatId) =
    metadata_frame activeChatId # map content_frame (nonempty (deltas stream)) @
      (if ending (handleStreaming db stream activeChatId) = Closed then [done_frame] else [])"
  by (simp add: handleStreaming_def stream_loop Let_def
      split: provider_end.splits option.splits)

lemma pending_none_new [simp]: "pending_none new_decoder"
  by (simp add: pending_none_def new_decoder_def)

lemma sse_frame_inject:
  assumes "distinct (map fst a)" "distinct (map fst b)" "sse_frame a = sse_frame b"
    "\<forall>k \<in> fst ` set a. array_index k = None" "\<forall>k \<in> fst ` set b. array_index k = None"
  shows "a = b"
proof -
  have "snd (decode_stream new_decoder (sse_frame a)) = snd (decode_stream new_decoder (sse_frame b))"
    using assms(3) by simp
  then have "JSON_stringify a = JSON_stringify b"
    by (simp add: decode_sse_frame)
  then have "string_object a = string_object b"
    using JSON_parse_stringify [OF assms(1,4)] JSON_parse_stringify [OF assms(2,5)] by simp
  then have "map (\<lambda>kv. (fst kv, String (snd kv))) a = map (\<lambda>kv. (fst kv, String (snd kv))) b"
    by (simp add: string_object_def)
  moreover have "inj (\<lambda>kv :: jsstring \<times> jsstring. (fst kv, String (snd kv)))"
    by (auto simp: inj_on_def prod_eq_iff)
  ultimately show ?thesis by (simp add: inj_map_eq_map)
qed

lemma frames_differ:
  "content_frame c \<noteq> done_frame" "metadata_frame i \<noteq> done_frame"
  "metadata_frame i \<noteq> content_frame c"
  using key_names key_plain
    sse_frame_inject [of "[(lit ''type'', lit ''content''), (lit ''content'', c)]"
      "[(lit ''type'', lit ''done'')]"]
    sse_frame_inject [of "[(lit ''type'', lit ''chat_metadata''), (lit ''id'', i),
        (lit ''object'', lit ''chat'')]" "[(lit ''type'', lit ''done'')]"]
    sse_frame_inject [of "[(lit ''type'', lit ''chat_metadata''), (lit ''id'', i),
        (lit ''object'', lit ''chat'')]" "[(lit ''type'', lit ''content''), (lit ''content'', c)]"]
  by (auto simp: content_frame_def done_frame_def metadata_frame_def)

lemma frame_event_sse_frame:
  assumes "distinct (map fst kvs)" "\<forall>k \<in> fst ` set kvs. array_index k = None"
  shows "frame_event (sse_frame kvs) = Some (string_object kvs)"
  by (simp only: frame_event_def decode_sse_frame [OF pending_none_new] snd_conv frame_lines
      list.case data_prefix if_True trim_stringify JSON_parse_stringify [OF assms])

lemma frame_events:
  "frame_event (metadata_frame i) =
     Some (Object [(lit ''type'', String (lit ''chat_metadata'')), (lit ''id'', String i),
                   (lit ''object'', String (lit ''chat''))])"
  "frame_event (content_frame c) =
     Some (Object [(lit ''type'', String (lit ''content'')), (lit ''content'', String c)])"
  "frame_event done_frame = Some (Object [(lit ''type'', String (lit ''done''))])"
  using key_names key_plain
  by (simp_all add: metadata_frame_def content_frame_def done_frame_def frame_event_sse_frame
      string_object_def)

lemma read_metadata_frame:
  assumes "pending_none (decoder st)"
  shows "read_chunk (metadata_frame i) st =
    (if i \<noteq> [] then (bom_done st)\<lparr>calls := calls st @ [onChatData (String i)]\<rparr> else bom_done st)"
  by (simp add: metadata_frame_def read_sse_frame [OF assms] handle_line_def
      handleSSELine_metadata bom_done_def)

lemma read_content_frame:
  assumes "pending_none (decoder st)" "c \<noteq> []"
  shows "read_chunk (content_frame c) st =
    (bom_done st)\<lparr>accumulated := accumulated st @ c,
                   calls := calls st @ [onContent (accumulated st @ c)]\<rparr>"
  using assms(2)
  by (simp add: content_frame_def read_sse_frame [OF assms(1)] handle_line_def
      handleSSELine_content bom_done_def Let_def)

lemma read_done_frame:
  assumes "pending_none (decoder st)"
  shows "read_chunk done_frame st = bom_done st"
  by (simp add: done_frame_def read_sse_frame [OF assms] handle_line_def
      handleSSELine_done bom_done_def)

lemma read_content_frames:
  assumes "pending_none (decoder st)" "\<forall>c \<in> set cs. c \<noteq> []"
  shows "fold read_chunk (map content_frame cs) st =
    (if cs = [] then st
     else (bom_done st)\<lparr>accumulated := accumulated st @ concat cs,
                         calls := calls st @ map onContent (running_totals (accumulated st) cs)\<rparr>)"
  using assms
proof (induction cs arbitrary: st)
  case Nil
  show ?case by simp
next
  case (Cons c cs)
  let ?st = "(bom_done st)\<lparr>accumulated := accumulated st @ c,
                   calls := calls st @ [onContent (accumulated st @ c)]\<rparr>"
  have r: "read_chunk (content_frame c) st = ?st"
    using Cons.prems by (simp add: read_content_frame)
  have p: "pending_none (decoder ?st)" using Cons.prems(1) by (simp add: bom_done_def)
  have "fold read_chunk (map content_frame cs) ?st =
    (if cs = [] then ?st
     else (bom_done ?st)\<lparr>accumulated := accumulated ?st @ concat cs,
                         calls := calls ?st @ map onContent (running_totals (accumulated ?st) cs)\<rparr>)"
    using Cons.IH [OF p] Cons.prems(2) by simp
  then show ?case by (simp add: r bom_done_def)
qed

section \<open>Lines that the decoder skips\<close>

lemma fold_handle_line_skip:
  "handleSSELine bad = None \<Longrightarrow>
   fold handle_line (before @ [bad] @ after) st = fold handle_line (before @ after) st"
  by (simp add: handle_line_def)

lemma read_bad_chunk:
  assumes "pending_none (decoder st)"
  shows "read_chunk (TextEncoder_encode (lit ''data: {oops'' @ [0x0A, 0x0A])) st = bom_done st"
proof -
  have w: "well_formed (lit ''data: {oops'' @ [0x0A, 0x0A])"
    by (simp add: lit_def ch_def is_high_surrogate_def is_low_surrogate_def)
  have d: "decode_stream (decoder st) (TextEncoder_encode (lit ''data: {oops'' @ [0x0A, 0x0A])) =
      ((decoder st)\<lparr>bom_seen := True\<rparr>, lit ''data: {oops'' @ [0x0A, 0x0A])"
    using TextDecoder_inverts_TextEncoder [OF w assms] by (simp add: lit_def ch_def)
  have l: "split_newline (lit ''data: {oops'' @ [0x0A, 0x0A]) = [lit ''data: {oops'', [], []]"
    by (simp add: lit_def ch_def)
  have p: "JSON_parse (lit ''{oops'') = None"
    by (simp add: JSON_parse_def parse_value.simps parse_members.simps skip_ws_def
        is_json_ws_def lit_def ch_def)
  have t: "trim (drop 6 (lit ''data: {oops'')) = lit ''{oops''"
    by (simp add: trim_def is_trim_space_def lit_def ch_def)
  have h: "handleSSELine (lit ''data: {oops'') = None"
    unfolding handleSSELine_def Let_def t p by simp
  show ?thesis
    by (simp add: read_chunk_def d l handle_line_def h handleSSELine_blank bom_done_def)
qed

text \<open>
  Claim C7. A line that does not begin with \<open>data: \<close> dispatches nothing; neither does a
  line whose remainder, the prefix stripped and the white space trimmed, is empty; neither
  does a line whose remainder \<open>JSON.parse\<close> rejects. A line that dispatches nothing leaves
  the consumer as it was, and the lines around it are handled as if it were absent: the
  exception of \<open>JSON.parse\<close> is caught, the read loop goes on. So a chunk with the
  corrupted line \<open>data: {oops\<close> between two content frames does not stop the accumulation:
  the stream yields both increments.
\<close>

theorem handleSSELine_tolerates:
  "(\<not> startsWith line (lit ''data: '') \<longrightarrow> handleSSELine line = None)
   \<and> (trim (drop 6 line) = [] \<longrightarrow> handleSSELine line = None)
   \<and> (JSON_parse (trim (drop 6 line)) = None \<longrightarrow> handleSSELine line = None)
   \<and> (handleSSELine line = None \<longrightarrow> handle_line line st = st)
   \<and> (handleSSELine line = None \<longrightarrow>
        fold handle_line (before @ [line] @ after) st = fold handle_line (before @ after) st)
   \<and> (c1 \<noteq> [] \<and> c2 \<noteq> [] \<longrightarrow>
        consumeSSEStream
          [content_frame c1, TextEncoder_encode (lit ''data: {oops'' @ [0x0A, 0x0A]), content_frame c2]
          Closed = Some (c1 @ c2))"
proof -
  have a: "\<not> startsWith line (lit ''data: '') \<longrightarrow> handleSSELine line = None"
    by (simp add: handleSSELine_def)
  have b: "trim (drop 6 line) = [] \<longrightarrow> handleSSELine line = None"
    by (simp add: handleSSELine_def)
  have c: "JSON_parse (trim (drop 6 line)) = None \<longrightarrow> handleSSELine line = None"
    by (simp add: handleSSELine_def Let_def)
  have d: "handleSSELine line = None \<longrightarrow> handle_line line st = st"
    by (simp add: handle_line_def)
  have e: "handleSSELine line = None \<longrightarrow>
      fold handle_line (before @ [line] @ after) st = fold handle_line (before @ after) st"
    using fold_handle_line_skip by blast
  have f: "c1 \<noteq> [] \<and> c2 \<noteq> [] \<longrightarrow>
        consumeSSEStream
          [content_frame c1, TextEncoder_encode (lit ''data: {oops'' @ [0x0A, 0x0A]), content_frame c2]
          Closed = Some (c1 @ c2)"
    by (simp add: consumeSSEStream_def consume_def read_content_frame read_bad_chunk bom_done_def)
  show ?thesis using a b c d e f by blast
qed

theorem handleSSELine_tolerates_witness:
  "handleSSELine (lit ''event: ping'') = None
   \<and> handleSSELine (lit ''data:   '') = None
   \<and> handleSSELine (lit ''data: {oops'') = None
   \<and> handle_line (lit ''data: {oops'') (consume []) = consume []
   \<and> consumeSSEStream
        [content_frame (lit ''Hel''), TextEncoder_encode (lit ''data: {oops'' @ [0x0A, 0x0A]),
         content_frame (lit ''lo!'')] Closed = Some (lit ''Hello!'')"
proof -
  have s: "\<not> startsWith (lit ''event: ping'') (lit ''data: '')"
    by (simp add: startsWith_def lit_def ch_def)
  have t: "trim (drop 6 (lit ''data:   '')) = []"
    by (simp add: trim_def is_trim_space_def lit_def ch_def)
  have p: "JSON_parse (trim (drop 6 (lit ''data: {oops''))) = None"
    by (simp add: trim_def is_trim_space_def JSON_parse_def parse_value.simps
        parse_members.simps skip_ws_def is_json_ws_def lit_def ch_def)
  have n: "lit ''Hel'' \<noteq> [] \<and> lit ''lo!'' \<noteq> []" by (simp add: lit_def)
  have j: "lit ''Hel'' @ lit ''lo!'' = lit ''Hello!''" by (simp add: lit_def)
  show ?thesis
    using handleSSELine_tolerates [of "lit ''event: ping''" "consume []" "[]" "[]" "[]" "[]"] s
      handleSSELine_tolerates [of "lit ''data:   ''" "consume []" "[]" "[]" "[]" "[]"] t
      handleSSELine_tolerates [of "lit ''data: {oops''" "consume []" "[]" "[]"
        "lit ''Hel''" "lit ''lo!''"] p n j
    by simp
qed

section \<open>What the encoder sends is what it stores\<close>

lemma nonempty_all: "\<forall>c \<in> set (nonempty ds). c \<noteq> []"
  by (simp add: nonempty_def)

lemma consume_frames:
  assumes "\<forall>c \<in> set cs. c \<noteq> []" "tail = [] \<or> tail = [done_frame]"
  shows "consume (metadata_frame i # map content_frame cs @ tail) =
    \<lparr>decoder = new_decoder\<lparr>bom_seen := True\<rparr>,
     accumulated = concat cs,
     calls = (if i \<noteq> [] then [onChatData (String i)] else []) @
             map onContent (running_totals [] cs)\<rparr>"
proof -
  let ?st0 = "\<lparr>decoder = new_decoder, accumulated = [], calls = []\<rparr>"
  let ?st1 = "read_chunk (metadata_frame i) ?st0"
  have s1: "?st1 = \<lparr>decoder = new_decoder\<lparr>bom_seen := True\<rparr>, accumulated = [],
      calls = (if i \<noteq> [] then [onChatData (String i)] else [])\<rparr>"
    by (simp add: read_metadata_frame bom_done_def)
  have p1: "pending_none (decoder ?st1)" by (simp add: s1)
  let ?st2 = "fold read_chunk (map content_frame cs) ?st1"
  have s2: "?st2 = \<lparr>decoder = new_decoder\<lparr>bom_seen := True\<rparr>, accumulated = concat cs,
      calls = (if i \<noteq> [] then [onChatData (String i)] else []) @
             map onContent (running_totals [] cs)\<rparr>"
    unfolding read_content_frames [OF p1 assms(1)] by (simp add: s1 bom_done_def)
  have p2: "pending_none (decoder ?st2)" by (simp add: s2)
  have "fold read_chunk tail ?st2 = ?st2"
    using assms(2) read_done_frame [OF p2] by (auto simp: s2 bom_done_def)
  then show ?thesis by (simp add: consume_def s2)
qed

lemma consume_handleStreaming:
  "consume (enqueued (handleStreaming db stream activeChatId)) =
    \<lparr>decoder = new_decoder\<lparr>bom_seen := True\<rparr>,
     accumulated = concat (deltas stream),
     calls = (if activeChatId \<noteq> [] then [onChatData (String activeChatId)] else []) @
             map onContent (running_totals [] (nonempty (deltas stream)))\<rparr>"
  unfolding handleStreaming_queue
  by (subst consume_frames) (simp_all add: nonempty_all concat_nonempty)

lemma consume_lines:
  "accumulated (consume chunks) =
     concat (List.map_filter ToString (content_payloads (lines_read new_decoder chunks)))"
  "content_calls (calls (consume chunks)) =
     running_totals [] (List.map_filter ToString (content_payloads (lines_read new_decoder chunks)))"
  using fold_read_chunk_lines [of chunks "\<lparr>decoder = new_decoder, accumulated = [], calls = []\<rparr>"]
    handle_lines_content [of "lines_read new_decoder chunks"
      "\<lparr>decoder = new_decoder, accumulated = [], calls = []\<rparr>"]
  by (simp_all add: consume_def)

lemma handleStreaming_persisted:
  "outcome stream = Completes \<Longrightarrow> activeChatId \<noteq> [] \<Longrightarrow>
   persisted (handleStreaming db stream activeChatId) = [concat (deltas stream)]"
  by (simp add: handleStreaming_def stream_loop concat_nonempty split: option.splits)

lemma handleStreaming_closed:
  "ending (handleStreaming db stream activeChatId) = Closed \<longleftrightarrow>
   outcome stream = Completes \<and> (activeChatId = [] \<or> db activeChatId \<noteq> None)"
  by (auto simp: handleStreaming_def stream_loop addMessageToChat_def
      split: provider_end.splits option.splits)

lemma content_calls_append: "content_calls (xs @ ys) = content_calls xs @ content_calls ys"
  by (induction xs rule: content_calls.induct) simp_all

lemma content_calls_onContent: "content_calls (map onContent ys) = ys"
  by (induction ys) simp_all

text \<open>
  Claim C2. When the provider's stream completes and the conversation is known, the text
  passed to \<open>addMessageToChat\<close> is the concatenation, in the order of the frames, of the
  \<open>content\<close> payloads that a reader finds in the chunks the encoder has enqueued. When
  moreover the response closes, the stored text is the concatenation of the provider's
  increments, \<open>consumeSSEStream\<close> returns that same text from the enqueued chunks, and its
  \<open>onContent\<close> calls are the running totals of the increments that are not empty: for
  \<open>Hel\<close> then \<open>lo!\<close> the stored text is \<open>Hello!\<close> and the calls are \<open>Hel\<close>, \<open>Hello!\<close>.
\<close>

theorem handleStreaming_persists_wire_content:
  "(outcome stream = Completes \<and> activeChatId \<noteq> [] \<longrightarrow>
      persisted (handleStreaming db stream activeChatId) =
        [concat (map js_to_string (content_payloads
           (lines_read new_decoder (enqueued (handleStreaming db stream activeChatId)))))])
   \<and> (ending (handleStreaming db stream activeChatId) = Closed \<and> activeChatId \<noteq> [] \<longrightarrow>
      persisted (handleStreaming db stream activeChatId) = [concat (deltas stream)] \<and>
      consumeSSEStream (enqueued (handleStreaming db stream activeChatId))
        (ending (handleStreaming db stream activeChatId)) = Some (concat (deltas stream)) \<and>
      content_calls (calls (consume (enqueued (handleStreaming db stream activeChatId)))) =
        running_totals [] (nonempty (deltas stream)))"
proof -
  have a: "outcome stream = Completes \<and> activeChatId \<noteq> [] \<longrightarrow>
      persisted (handleStreaming db stream activeChatId) =
        [concat (map js_to_string (content_payloads
           (lines_read new_decoder (enqueued (handleStreaming db stream activeChatId)))))]"
    using consume_lines(1) [of "enqueued (handleStreaming db stream activeChatId)"]
    by (simp add: handleStreaming_persisted consume_handleStreaming concat_js_to_string)
  have b: "ending (handleStreaming db stream activeChatId) = Closed \<and> activeChatId \<noteq> [] \<longrightarrow>
      persisted (handleStreaming db stream activeChatId) = [concat (deltas stream)] \<and>
      consumeSSEStream (enqueued (handleStreaming db stream activeChatId))
        (ending (handleStreaming db stream activeChatId)) = Some (concat (deltas stream)) \<and>
      content_calls (calls (consume (enqueued (handleStreaming db stream activeChatId)))) =
        running_totals [] (nonempty (deltas stream))"
    using handleStreaming_closed [of db stream activeChatId]
    by (auto simp: handleStreaming_persisted consumeSSEStream_def consume_handleStreaming
        content_calls_append content_calls_onContent)
  show ?thesis using a b by blast
qed

theorem handleStreaming_persists_wire_content_witness:
  "persisted (handleStreaming (Map.empty(lit ''c1'' \<mapsto> []))
      \<lparr>deltas = [lit ''Hel'', lit ''lo!''], outcome = Completes\<rparr> (lit ''c1'')) = [lit ''Hello!'']
   \<and> consumeSSEStream
       (enqueued (handleStreaming (Map.empty(lit ''c1'' \<mapsto> []))
          \<lparr>deltas = [lit ''Hel'', lit ''lo!''], outcome = Completes\<rparr> (lit ''c1'')))
       (ending (handleStreaming (Map.empty(lit ''c1'' \<mapsto> []))
          \<lparr>deltas = [lit ''Hel'', lit ''lo!''], outcome = Completes\<rparr> (lit ''c1'')))
       = Some (lit ''Hello!'')
   \<and> content_calls (calls (consume
       (enqueued (handleStreaming (Map.empty(lit ''c1'' \<mapsto> []))
          \<lparr>deltas = [lit ''Hel'', lit ''lo!''], outcome = Completes\<rparr> (lit ''c1'')))))
       = [lit ''Hel'', lit ''Hello!'']
   \<and> concat (map js_to_string (content_payloads (lines_read new_decoder
       (enqueued (handleStreaming (Map.empty(lit ''c1'' \<mapsto> []))
          \<lparr>deltas = [lit ''Hel'', lit ''lo!''], outcome = Completes\<rparr> (lit ''c1'')))))) =
       lit ''Hello!''"
proof -
  let ?r = "handleStreaming (Map.empty(lit ''c1'' \<mapsto> []))
      \<lparr>deltas = [lit ''Hel'', lit ''lo!''], outcome = Completes\<rparr> (lit ''c1'')"
  have c: "ending ?r = Closed"
    by (simp add: handleStreaming_closed)
  have n: "lit ''c1'' \<noteq> []" by (simp add: lit_def)
  have j: "concat [lit ''Hel'', lit ''lo!''] = lit ''Hello!''" by (simp add: lit_def)
  have t: "running_totals [] (nonempty [lit ''Hel'', lit ''lo!'']) = [lit ''Hel'', lit ''Hello!'']"
    by (simp add: nonempty_def lit_def)
  have b: "persisted ?r = [concat [lit ''Hel'', lit ''lo!'']] \<and>
      consumeSSEStream (enqueued ?r) (ending ?r) = Some (concat [lit ''Hel'', lit ''lo!'']) \<and>
      content_calls (calls (consume (enqueued ?r))) =
        running_totals [] (nonempty [lit ''Hel'', lit ''lo!''])"
    using conjunct2 [OF handleStreaming_persists_wire_content
      [of "\<lparr>deltas = [lit ''Hel'', lit ''lo!''], outcome = Completes\<rparr>" "lit ''c1''"
          "Map.empty(lit ''c1'' \<mapsto> [])"]] c n
    by simp
  have a: "persisted ?r =
      [concat (map js_to_string (content_payloads (lines_read new_decoder (enqueued ?r))))]"
    using conjunct1 [OF handleStreaming_persists_wire_content
      [of "\<lparr>deltas = [lit ''Hel'', lit ''lo!''], outcome = Completes\<rparr>" "lit ''c1''"
          "Map.empty(lit ''c1'' \<mapsto> [])"]] n
    by simp
  have d: "concat (map js_to_string (content_payloads (lines_read new_decoder (enqueued ?r)))) =
      lit ''Hello!''"
    using a conjunct1 [OF b] unfolding j by simp
  show ?thesis using b d unfolding j t by simp
qed

section \<open>A provider that throws\<close>

text \<open>
  Claim C3. When the provider's stream throws, the response ends with the error signal, no
  \<open>done\<close> frame is among the chunks enqueued, \<open>addMessageToChat\<close> is not called and the
  store is as it was; the partial text is dropped. A reader of that response gets the
  error, not a text.
\<close>

theorem handleStreaming_provider_throws:
  "outcome stream = Throws \<longrightarrow>
     ending (handleStreaming db stream activeChatId) = Errored
     \<and> done_frame \<notin> set (enqueued (handleStreaming db stream activeChatId))
     \<and> persisted (handleStreaming db stream activeChatId) = []
     \<and> store (handleStreaming db stream activeChatId) = db
     \<and> consumeSSEStream (enqueued (handleStreaming db stream activeChatId))
           (ending (handleStreaming db stream activeChatId)) = None"
proof
  assume t: "outcome stream = Throws"
  have e: "ending (handleStreaming db stream activeChatId) = Errored"
    using t by (simp add: handleStreaming_def stream_loop)
  have q: "enqueued (handleStreaming db stream activeChatId) =
      metadata_frame activeChatId # map content_frame (nonempty (deltas stream))"
    using e by (simp add: handleStreaming_queue)
  have d: "done_frame \<notin> set (enqueued (handleStreaming db stream activeChatId))"
    unfolding q by (auto simp: frames_differ(1,2) [symmetric])
  have p: "persisted (handleStreaming db stream activeChatId) = []"
    "store (handleStreaming db stream activeChatId) = db"
    using t by (simp_all add: handleStreaming_def stream_loop)
  show "ending (handleStreaming db stream activeChatId) = Errored
     \<and> done_frame \<notin> set (enqueued (handleStreaming db stream activeChatId))
     \<and> persisted (handleStreaming db stream activeChatId) = []
     \<and> store (handleStreaming db stream activeChatId) = db
     \<and> consumeSSEStream (enqueued (handleStreaming db stream activeChatId))
           (ending (handleStreaming db stream activeChatId)) = None"
    using e d p by (simp add: consumeSSEStream_def)
qed

theorem handleStreaming_provider_throws_witness:
  "ending (handleStreaming (Map.empty(lit ''c1'' \<mapsto> []))
      \<lparr>deltas = [lit ''Hel''], outcome = Throws\<rparr> (lit ''c1'')) = Errored
   \<and> done_frame \<notin> set (enqueued (handleStreaming (Map.empty(lit ''c1'' \<mapsto> []))
      \<lparr>deltas = [lit ''Hel''], outcome = Throws\<rparr> (lit ''c1'')))
   \<and> persisted (handleStreaming (Map.empty(lit ''c1'' \<mapsto> []))
      \<lparr>deltas = [lit ''Hel''], outcome = Throws\<rparr> (lit ''c1'')) = []
   \<and> store (handleStreaming (Map.empty(lit ''c1'' \<mapsto> []))
      \<lparr>deltas = [lit ''Hel''], outcome = Throws\<rparr> (lit ''c1'')) = Map.empty(lit ''c1'' \<mapsto> [])"
  using handleStreaming_provider_throws
    [of "\<lparr>deltas = [lit ''Hel''], outcome = Throws\<rparr>" "Map.empty(lit ''c1'' \<mapsto> [])" "lit ''c1''"]
  by simp

section \<open>The order of the frames\<close>

text \<open>
  Claim C8. The response closes exactly when the provider's stream completes and the store
  accepts the text (the conversation exists, or none is given). The chunks of a response
  that closes are then, in this order: one \<open>chat_metadata\<close> frame, which carries the
  conversation identifier; one \<open>content\<close> frame for each increment that is not empty, in
  the order of the increments, each carrying that increment alone; one \<open>done\<close> frame.
  Read back, each chunk is the frame of exactly that event.
\<close>

theorem handleStreaming_frame_order:
  "(ending (handleStreaming db stream activeChatId) = Closed \<longleftrightarrow>
      outcome stream = Completes \<and> (activeChatId = [] \<or> db activeChatId \<noteq> None))
   \<and> (ending (handleStreaming db stream activeChatId) = Closed \<longrightarrow>
      enqueued (handleStreaming db stream activeChatId) =
        metadata_frame activeChatId # map content_frame (nonempty (deltas stream)) @ [done_frame]
      \<and> map frame_event (enqueued (handleStreaming db stream activeChatId)) =
        Some (Object [(lit ''type'', String (lit ''chat_metadata'')),
                      (lit ''id'', String activeChatId),
                      (lit ''object'', String (lit ''chat''))]) #
        map (\<lambda>c. Some (Object [(lit ''type'', String (lit ''content'')),
                                  (lit ''content'', String c)])) (nonempty (deltas stream)) @
        [Some (Object [(lit ''type'', String (lit ''done''))])])"
proof -
  have q: "ending (handleStreaming db stream activeChatId) = Closed \<longrightarrow>
      enqueued (handleStreaming db stream activeChatId) =
        metadata_frame activeChatId # map content_frame (nonempty (deltas stream)) @ [done_frame]"
    by (simp add: handleStreaming_queue)
  have "map frame_event
      (metadata_frame activeChatId # map content_frame (nonempty (deltas stream)) @ [done_frame]) =
        Some (Object [(lit ''type'', String (lit ''chat_metadata'')),
                      (lit ''id'', String activeChatId),
                      (lit ''object'', String (lit ''chat''))]) #
        map (\<lambda>c. Some (Object [(lit ''type'', String (lit ''content'')),
                                  (lit ''content'', String c)])) (nonempty (deltas stream)) @
        [Some (Object [(lit ''type'', String (lit ''done''))])]"
    by (simp add: frame_events comp_def)
  then show ?thesis using q handleStreaming_closed [of db stream activeChatId] by simp
qed

theorem handleStreaming_frame_order_witness:
  "map frame_event (enqueued (handleStreaming (Map.empty(lit ''c1'' \<mapsto> []))
      \<lparr>deltas = [lit ''Hel'', [], lit ''lo!''], outcome = Completes\<rparr> (lit ''c1''))) =
    [Some (Object [(lit ''type'', String (lit ''chat_metadata'')), (lit ''id'', String (lit ''c1'')),
                   (lit ''object'', String (lit ''chat''))]),
     Some (Object [(lit ''type'', String (lit ''content'')), (lit ''content'', String (lit ''Hel''))]),
     Some (Object [(lit ''type'', String (lit ''content'')), (lit ''content'', String (lit ''lo!''))]),
     Some (Object [(lit ''type'', String (lit ''done''))])]"
proof -
  let ?r = "handleStreaming (Map.empty(lit ''c1'' \<mapsto> []))
      \<lparr>deltas = [lit ''Hel'', [], lit ''lo!''], outcome = Completes\<rparr> (lit ''c1'')"
  have c: "ending ?r = Closed"
    using conjunct1 [OF handleStreaming_frame_order
      [of "Map.empty(lit ''c1'' \<mapsto> [])"
          "\<lparr>deltas = [lit ''Hel'', [], lit ''lo!''], outcome = Completes\<rparr>" "lit ''c1''"]]
    by simp
  have n: "nonempty [lit ''Hel'', [], lit ''lo!''] = [lit ''Hel'', lit ''lo!'']"
    by (simp add: nonempty_def lit_def)
  show ?thesis
    using conjunct2 [OF mp [OF conjunct2 [OF handleStreaming_frame_order
      [of "Map.empty(lit ''c1'' \<mapsto> [])"
          "\<lparr>deltas = [lit ''Hel'', [], lit ''lo!''], outcome = Completes\<rparr>" "lit ''c1''"]] c]]
    by (simp add: n)
qed

section \<open>The running total\<close>

lemmas number_eval = parse_number_def parse_int_part_def parse_frac_part_def
  parse_exp_part_def parse_sign_def

lemmas json_eval = JSON_parse_def parse_value.simps parse_members.simps parse_elements.simps
  skip_ws_def is_json_ws_def cons_result_def set_prop_def array_index_def is_digit_def
  QuoteJSONString_def quote_unit_def
  is_high_surrogate_def is_low_surrogate_def trim_def is_trim_space_def startsWith_def
  lit_def ch_def

lemma handleSSELine_array_payload:
  "handleSSELine array_payload_line = Some (ContentDelta (Array []))"
  by (simp add: handleSSELine_def array_payload_line_def Let_def json_eval)

lemma handleSSELine_object_payload:
  "handleSSELine object_payload_line =
    Some (ContentDelta (Object [(lit ''toString'', Number (lit ''1''))]))"
  by (simp add: handleSSELine_def object_payload_line_def Let_def json_eval number_eval)

lemma read_array_payload_frame:
  assumes "pending_none (decoder st)"
  shows "read_chunk array_payload_frame st =
    (bom_done st)\<lparr>calls := calls st @ [onContent (accumulated st)]\<rparr>"
proof -
  have w: "well_formed (array_payload_line @ [0x0A, 0x0A])"
    unfolding array_payload_line_def
    by (intro well_formed_append QuoteJSONString_well_formed)
      (simp_all add: lit_def ch_def is_high_surrogate_def is_low_surrogate_def)
  have h: "hd (array_payload_line @ [0x0A, 0x0A]) \<noteq> 0xFEFF" "array_payload_line @ [0x0A, 0x0A] \<noteq> []"
    by (simp_all add: array_payload_line_def lit_def ch_def)
  have d: "decode_stream (decoder st) array_payload_frame =
      ((decoder st)\<lparr>bom_seen := True\<rparr>, array_payload_line @ [0x0A, 0x0A])"
    unfolding array_payload_frame_def
    using TextDecoder_inverts_TextEncoder [OF w assms] h by simp
  have "0x0A \<notin> set array_payload_line"
    by (simp add: array_payload_line_def QuoteJSONString_no_newline lit_def ch_def)
  then have l: "split_newline (array_payload_line @ [0x0A, 0x0A]) = [array_payload_line, [], []]"
    using split_newline_line [of array_payload_line "[0x0A]"] by simp
  show ?thesis
    by (simp add: read_chunk_def d l handle_line_def handleSSELine_array_payload
        handleSSELine_blank bom_done_def)
qed

lemma string_payload_nonempty:
  assumes "\<forall>v \<in> set vs. is_string v \<and> js_truthy v"
  shows "\<forall>s \<in> set (List.map_filter ToString vs). s \<noteq> []"
  using assms
proof (induction vs)
  case Nil
  show ?case by simp
next
  case (Cons v vs)
  then obtain s where "v = String s" "s \<noteq> []" by (cases v) auto
  then show ?case using Cons by simp
qed

lemma unrecognized_type:
  assumes "JSON_parse (trim (drop 6 line)) = Some data"
    "get_prop data (lit ''type'') \<noteq> String (lit ''chat_metadata'')"
    "get_prop data (lit ''type'') \<noteq> String (lit ''content'')"
  shows "handleSSELine line = None"
  using assms by (cases data) (simp_all add: handleSSELine_def Let_def)

lemma consume_after_done:
  assumes "\<forall>c \<in> set cs. c \<noteq> []"
  shows "consumeSSEStream (done_frame # map content_frame cs) Closed = Some (concat cs)"
proof -
  let ?st0 = "\<lparr>decoder = new_decoder, accumulated = [], calls = []\<rparr>"
  have p: "pending_none (decoder (bom_done ?st0))" by (simp add: bom_done_def)
  have s1: "read_chunk done_frame ?st0 = bom_done ?st0"
    by (simp add: read_done_frame)
  have "accumulated (fold read_chunk (map content_frame cs) (bom_done ?st0)) = concat cs"
    unfolding read_content_frames [OF p assms] by (simp add: bom_done_def)
  then show ?thesis
    by (simp add: consumeSSEStream_def consume_def s1)
qed

lemma payloads_example:
  "content_payloads (lines_read new_decoder
      [content_frame (lit ''Hel''), content_frame (lit ''lo!''), done_frame]) =
    [String (lit ''Hel''), String (lit ''lo!'')]"
proof -
  have n: "lit ''Hel'' \<noteq> []" "lit ''lo!'' \<noteq> []" by (simp_all add: lit_def)
  show ?thesis
    unfolding content_frame_def done_frame_def
    by (simp add: decode_sse_frame frame_lines handleSSELine_content handleSSELine_done
        handleSSELine_blank n)
qed

text \<open>
  Claim C9, as the code has it. The \<open>onContent\<close> calls of a stream, in the order of
  reading, are the running totals of the strings of the \<open>content\<close> payloads read, each
  payload truthy, that \<open>accumulated += content\<close> can coerce, and the text returned at the
  end of the stream is their concatenation. A payload whose coercion throws is skipped with
  its line, the consumer as it was. When every payload is a string, the totals are strictly
  increasing in length, each longer than the empty text. A line whose object has a \<open>type\<close>
  other than \<open>chat_metadata\<close> and \<open>content\<close>, \<open>done\<close> among them, dispatches nothing and
  leaves the consumer as it was: reading the \<open>done\<close> frame changes neither the total nor
  the calls, and content frames that follow a \<open>done\<close> frame are accumulated still, the read
  loop ending at the end of the stream only.
\<close>

theorem consumeSSEStream_accumulates:
  "content_calls (calls (consume chunks)) =
     running_totals []
       (List.map_filter ToString (content_payloads (lines_read new_decoder chunks)))
   \<and> consumeSSEStream chunks Closed =
     Some (concat (List.map_filter ToString (content_payloads (lines_read new_decoder chunks))))
   \<and> (handleSSELine content_line = Some (ContentDelta v) \<and> ToString v = None \<longrightarrow>
        handle_line content_line st = st)
   \<and> ((\<forall>v \<in> set (content_payloads (lines_read new_decoder chunks)). is_string v) \<longrightarrow>
        sorted_wrt (<) (map length (content_calls (calls (consume chunks)))) \<and>
        (\<forall>t \<in> set (content_calls (calls (consume chunks))). 0 < length t))
   \<and> (JSON_parse (trim (drop 6 line)) = Some data \<and>
        get_prop data (lit ''type'') \<noteq> String (lit ''chat_metadata'') \<and>
        get_prop data (lit ''type'') \<noteq> String (lit ''content'') \<longrightarrow>
        handleSSELine line = None \<and> handle_line line st = st)
   \<and> (pending_none (decoder st) \<longrightarrow>
        accumulated (read_chunk done_frame st) = accumulated st \<and>
        calls (read_chunk done_frame st) = calls st)
   \<and> ((\<forall>c \<in> set cs. c \<noteq> []) \<longrightarrow>
        consumeSSEStream (done_frame # map content_frame cs) Closed = Some (concat cs))"
proof -
  let ?vs = "content_payloads (lines_read new_decoder chunks)"
  have a: "content_calls (calls (consume chunks)) =
      running_totals [] (List.map_filter ToString ?vs)"
    by (rule consume_lines(2))
  have b: "consumeSSEStream chunks Closed = Some (concat (List.map_filter ToString ?vs))"
    by (simp add: consumeSSEStream_def consume_lines(1))
  have t: "handleSSELine content_line = Some (ContentDelta v) \<and> ToString v = None \<longrightarrow>
        handle_line content_line st = st"
    by (simp add: handle_line_def)
  have c: "(\<forall>v \<in> set ?vs. is_string v) \<longrightarrow>
        sorted_wrt (<) (map length (content_calls (calls (consume chunks)))) \<and>
        (\<forall>t \<in> set (content_calls (calls (consume chunks))). 0 < length t)"
  proof
    assume s: "\<forall>v \<in> set ?vs. is_string v"
    have "\<forall>v \<in> set ?vs. is_string v \<and> js_truthy v"
      using s content_payloads_truthy by blast
    then have "\<forall>s \<in> set (List.map_filter ToString ?vs). s \<noteq> []"
      by (rule string_payload_nonempty)
    then show "sorted_wrt (<) (map length (content_calls (calls (consume chunks)))) \<and>
        (\<forall>t \<in> set (content_calls (calls (consume chunks))). 0 < length t)"
      unfolding a using running_totals_increasing [of "List.map_filter ToString ?vs" "[]"]
      by (metis length_greater_0_conv list.size(3) not_less_zero)
  qed
  have d: "JSON_parse (trim (drop 6 line)) = Some data \<and>
        get_prop data (lit ''type'') \<noteq> String (lit ''chat_metadata'') \<and>
        get_prop data (lit ''type'') \<noteq> String (lit ''content'') \<longrightarrow>
        handleSSELine line = None \<and> handle_line line st = st"
    using unrecognized_type [of line data] by (auto simp: handle_line_def)
  have e: "pending_none (decoder st) \<longrightarrow>
        accumulated (read_chunk done_frame st) = accumulated st \<and>
        calls (read_chunk done_frame st) = calls st"
    by (simp add: read_done_frame bom_done_def)
  have f: "(\<forall>c \<in> set cs. c \<noteq> []) \<longrightarrow>
        consumeSSEStream (done_frame # map content_frame cs) Closed = Some (concat cs)"
    using consume_after_done by blast
  show ?thesis using a b t c d e f by blast
qed

theorem consumeSSEStream_accumulates_witness:
  "content_calls (calls (consume
      [content_frame (lit ''Hel''), content_frame (lit ''lo!''), done_frame])) =
     [lit ''Hel'', lit ''Hello!'']
   \<and> consumeSSEStream [content_frame (lit ''Hel''), content_frame (lit ''lo!''), done_frame] Closed =
     Some (lit ''Hello!'')
   \<and> handle_line object_payload_line (consume []) = consume []
   \<and> sorted_wrt (<) (map length (content_calls (calls (consume
      [content_frame (lit ''Hel''), content_frame (lit ''lo!''), done_frame]))))
   \<and> handle_line (lit ''data: '' @ JSON_stringify [(lit ''type'', lit ''done'')]) (consume []) =
     consume []
   \<and> calls (read_chunk done_frame (consume [])) = calls (consume [])
   \<and> consumeSSEStream (done_frame # map content_frame [lit ''Hi'']) Closed = Some (lit ''Hi'')"
proof -
  let ?chunks = "[content_frame (lit ''Hel''), content_frame (lit ''lo!''), done_frame]"
  let ?line = "lit ''data: '' @ JSON_stringify [(lit ''type'', lit ''done'')]"
  let ?data = "Object [(lit ''type'', String (lit ''done''))]"
  let ?v = "Object [(lit ''toString'', Number (lit ''1''))]"
  note w = consumeSSEStream_accumulates [where chunks = ?chunks and line = ?line
      and data = ?data and st = "consume []" and cs = "[lit ''Hi'']"
      and content_line = object_payload_line and v = ?v]
  have s: "\<forall>v \<in> set (content_payloads (lines_read new_decoder ?chunks)). is_string v"
    unfolding payloads_example by simp
  have p: "JSON_parse (trim (drop 6 ?line)) = Some ?data"
    by (simp only: data_prefix trim_stringify)
      (simp add: JSON_parse_stringify key_plain string_object_def)
  have t: "get_prop ?data (lit ''type'') \<noteq> String (lit ''chat_metadata'')"
    "get_prop ?data (lit ''type'') \<noteq> String (lit ''content'')"
    using key_names by simp_all
  have o: "handleSSELine object_payload_line = Some (ContentDelta ?v)" "ToString ?v = None"
    by (simp_all add: handleSSELine_object_payload)
  have d: "pending_none (decoder (consume []))" by (simp add: consume_def)
  have h: "\<forall>c \<in> set [lit ''Hi'']. c \<noteq> []" by (simp add: lit_def)
  have j: "running_totals []
        (List.map_filter ToString [String (lit ''Hel''), String (lit ''lo!'')]) =
      [lit ''Hel'', lit ''Hello!'']"
    "concat (List.map_filter ToString [String (lit ''Hel''), String (lit ''lo!'')]) =
      lit ''Hello!''"
    "concat [lit ''Hi''] = lit ''Hi''"
    by (simp_all add: lit_def)
  show ?thesis
    using w s p t o d h unfolding payloads_example j by blast
qed

text \<open>
  Claim C9 as stated, for every byte stream: a payload that is truthy and whose string form
  is empty breaks it. After the content frame of \<open>Hi\<close>, a chunk whose \<open>content\<close> is the
  empty array invokes \<open>onContent\<close> again, with the total \<open>Hi\<close> as before: the two calls
  have the same length.
\<close>

theorem consumeSSEStream_repeats_total:
  "content_calls (calls (consume [content_frame (lit ''Hi''), array_payload_frame])) =
     [lit ''Hi'', lit ''Hi'']"
proof -
  have n: "lit ''Hi'' \<noteq> []" by (simp add: lit_def)
  show ?thesis
    by (simp add: consume_def read_content_frame n read_array_payload_frame bom_done_def)
qed

section \<open>Chunk boundaries\<close>

lemmas utf8_eval = decode_stream.simps utf8_handler_def lead_byte_def reset_sequence_def
  utf16_def serialize.simps new_decoder_def Let_def utf8_bytes_def is_high_surrogate_def
  is_low_surrogate_def pair_code_point_def TextEncoder_encode.simps lit_def ch_def

lemmas frame_eval = content_frame_def sse_frame_def JSON_stringify_def QuoteJSONString_def
  quote_unit_def stringify_members.simps quote_units.simps

lemma content_frame_Hi:
  "content_frame (lit ''Hi'') =
    [100, 97, 116, 97, 58, 32, 123, 34, 116, 121, 112, 101, 34, 58, 34, 99, 111, 110, 116, 101,
     110, 116, 34, 44, 34, 99, 111, 110, 116, 101, 110, 116, 34, 58, 34, 72, 105, 34, 125, 10, 10]"
  by (simp add: frame_eval utf8_eval)

lemma content_frame_eacute:
  "content_frame [0xE9] =
    [100, 97, 116, 97, 58, 32, 123, 34, 116, 121, 112, 101, 34, 58, 34, 99, 111, 110, 116, 101,
     110, 116, 34, 44, 34, 99, 111, 110, 116, 101, 110, 116, 34, 58, 34, 0xC3, 0xA9, 34, 125, 10, 10]"
  by (simp add: frame_eval utf8_eval)

lemma split_mid_frame:
  "consume [take 20 (content_frame (lit ''Hi'')), drop 20 (content_frame (lit ''Hi''))] =
    \<lparr>decoder = new_decoder\<lparr>bom_seen := True\<rparr>, accumulated = [], calls = []\<rparr>"
  unfolding content_frame_Hi
  by (simp add: consume_def read_chunk_def handle_line_def handleSSELine_def utf8_eval json_eval)

lemma split_mid_code_point:
  "consume [take 36 (content_frame [0xE9]), drop 36 (content_frame [0xE9])] =
    \<lparr>decoder = new_decoder\<lparr>bom_seen := True\<rparr>, accumulated = [], calls = []\<rparr>"
  unfolding content_frame_eacute
  by (simp add: consume_def read_chunk_def handle_line_def handleSSELine_def utf8_eval json_eval)

text \<open>
  Claim C1 at two partitions of one frame. The decoder keeps the bytes of a code point that
  a read cuts, so that the text decoded is the same however the bytes are cut, as
  \<open>decode_stream_append\<close> says; but \<open>consumeSSEStream\<close> splits the text of each read into lines on its own and keeps
  no unfinished line for the next read. The content frame of \<open>Hi\<close>, 41 bytes, read whole
  gives \<open>Hi\<close>; read as its first 20 bytes and then the rest, the same bytes give the empty
  text, the first part failing \<open>JSON.parse\<close> and the second lacking the prefix. The content
  frame of the letter U+00E9, cut between the two bytes of that letter, gives the empty
  text too, where read whole it gives the letter.
\<close>

theorem consumeSSEStream_loses_split_frame:
  "consumeSSEStream [content_frame (lit ''Hi'')] Closed = Some (lit ''Hi'')
   \<and> consumeSSEStream
       [take 20 (content_frame (lit ''Hi'')), drop 20 (content_frame (lit ''Hi''))] Closed = Some []
   \<and> take 20 (content_frame (lit ''Hi'')) @ drop 20 (content_frame (lit ''Hi'')) =
       content_frame (lit ''Hi'')
   \<and> consumeSSEStream [content_frame [0xE9]] Closed = Some [0xE9]
   \<and> consumeSSEStream
       [take 36 (content_frame [0xE9]), drop 36 (content_frame [0xE9])] Closed = Some []"
proof -
  have a: "consumeSSEStream [content_frame c] Closed = Some c" if "c \<noteq> []" for c
    using that by (simp add: consumeSSEStream_def consume_def read_content_frame)
  have n: "lit ''Hi'' \<noteq> []" by (simp add: lit_def)
  show ?thesis
    using a [OF n] a [of "[0xE9]"]
    by (simp add: consumeSSEStream_def split_mid_frame split_mid_code_point)
qed

end
